theory Spec2Isabelle
  imports Complex_Main "HOL-Library.Multiset"
begin

section \<open>Data model\<close>

text \<open>
  The program is a single C++ file, \<^verbatim>\<open>Project 2-Manufacturing.cpp\<close>: a class
  \<^verbatim>\<open>ManufacturingSystem\<close> that owns an event queue, four statistics maps and the resource
  tables, and whose event handlers are closures pushed on the queue.

  Conventions of the embedding:
  \<^item> \<^verbatim>\<open>double\<close> is modelled by \<open>real\<close>: rounding is not modelled, and a statement
    that turns on whether two times coincide is phrased on the times of the events, not on
    the samples that were added up;
  \<^item> \<^verbatim>\<open>int\<close> is modelled by the unbounded \<open>int\<close>: a statement about the counts of a
    run that increments them bounds the capacities and the number of iterations, so that
    the counts stay in the range of a 32-bit integer;
  \<^item> a \<^verbatim>\<open>std::map\<close> is a partial function; \<^verbatim>\<open>operator[]\<close> on a missing key inserts a
    value-initialised entry, which is written out (\<open>inserted\<close>);
  \<^item> a closure stored in an \<^verbatim>\<open>Event\<close> becomes a constructor of \<open>Action\<close> carrying the
    captured values, and \<open>fire\<close> runs its body;
  \<^item> the lines written to \<^verbatim>\<open>std::cout\<close> are kept as a list of \<open>Output\<close> values;
  \<^item> the random engine together with the exponential distribution is the sequence of
    samples still to be drawn (\<open>generator\<close>), which the seed determines.
\<close>

record Product =
  ptype :: string  \<comment> \<open>field \<^verbatim>\<open>type\<close>\<close>
  intermediateStage :: int

datatype Action =
    ArrivalAction string  \<comment> \<open>\<^verbatim>\<open>[this, productType] { handleRawMaterialArrival(productType); }\<close>\<close>
  | SetupAction Product real string  \<comment> \<open>\<^verbatim>\<open>[this, product, processTime, stage] { ... }\<close>\<close>
  | CompleteAction Product  \<comment> \<open>\<^verbatim>\<open>[this, product] { completeStage(product); }\<close>\<close>
  | MaintenanceAction string  \<comment> \<open>\<^verbatim>\<open>[this, resource] { handleMaintenance(resource); }\<close>\<close>
  | ShiftChangeAction  \<comment> \<open>\<^verbatim>\<open>[this] { handleShiftChange(); }\<close>\<close>

record Event =
  time :: real
  etype :: string  \<comment> \<open>field \<^verbatim>\<open>type\<close>\<close>
  action :: Action

datatype Output =
    RawMaterialArrived string real
  | StageCompleted string string real
  | BreakdownOccurred string real
  | MaintenanceCompleted string real
  | ShiftChangeAt real

record ManufacturingSystem =
  eventQueue :: "Event list"  \<comment> \<open>the vector under the \<^verbatim>\<open>std::priority_queue\<close>\<close>
  resources :: "string \<rightharpoonup> int"
  availableResources :: "string \<rightharpoonup> int"
  resourceUsageTime :: "string \<rightharpoonup> real"
  resourceWaitingTime :: "string \<rightharpoonup> real"
  rawMaterialCount :: int
  finishedProducts :: int
  currentTime :: real
  generator :: "nat \<Rightarrow> real"
  processingTimes :: "string \<rightharpoonup> real list"
  productTypes :: "string \<rightharpoonup> int"
  finishedProductsPerType :: "string \<rightharpoonup> int"
  productQueue :: "Product list"
  machineSetupTimes :: "string \<rightharpoonup> real"
  shiftLength :: int
  cout :: "Output list"

section \<open>The containers of the standard library\<close>

subsection \<open>\<^verbatim>\<open>std::map::operator[]\<close>\<close>

definition lookup :: "('k \<rightharpoonup> 'v) \<Rightarrow> 'k \<Rightarrow> 'v \<Rightarrow> 'v" where
  "lookup m k d = (case m k of None \<Rightarrow> d | Some v \<Rightarrow> v)"

definition inserted :: "('k \<rightharpoonup> 'v) \<Rightarrow> 'k \<Rightarrow> 'v \<Rightarrow> ('k \<rightharpoonup> 'v)" where
  "inserted m k d = (case m k of None \<Rightarrow> m(k \<mapsto> d) | Some v \<Rightarrow> m)"

text \<open>
  \<^verbatim>\<open>m[k]\<close> used as a value reads \<open>lookup m k d\<close> and leaves the map \<open>inserted m k d\<close>, where
  \<open>d\<close> is the value-initialised element (\<open>0\<close>, \<open>0.0\<close> or the empty vector). A compound
  assignment \<^verbatim>\<open>m[k] += x\<close> leaves \<open>m(k \<mapsto> lookup m k d + x)\<close>.
\<close>

subsection \<open>\<^verbatim>\<open>std::priority_queue<Event, std::vector<Event>, std::greater<Event>>\<close>\<close>

text \<open>
  The queue is a binary heap kept in a vector by \<^verbatim>\<open>std::push_heap\<close> and
  \<^verbatim>\<open>std::pop_heap\<close>. The comparison is \<^verbatim>\<open>std::greater<Event>\<close>, that is
  \<^verbatim>\<open>Event::operator>\<close>, which looks at \<open>time\<close> only. The standard library is not part
  of the repository; the two algorithms are written here as the GNU and the Microsoft
  library implement them (\<^verbatim>\<open>__push_heap\<close> and \<^verbatim>\<open>__adjust_heap\<close> in the former): a hole
  is moved through the vector and the value is stored once at the end.
  \<^item> \<open>push_heap_loop\<close> moves the hole up while the parent is later than the value.
  \<^item> \<open>adjust_down\<close> moves the hole down to the earlier child (the right one when the two
    are equal) while the hole has two children; \<open>adjust_heap\<close> then handles a last node
    with a single child and pushes the value up from the hole.
  \<^item> \<^verbatim>\<open>pop()\<close> saves the last element, overwrites it with the top, repairs the heap on
    the first \<open>size - 1\<close> slots and drops the last slot; the model drops the slot at once
    (\<open>butlast\<close>). \<open>adjust_heap\<close> is called with \<open>len \<ge> 1\<close> only, where the truncating
    signed divisions of the source agree with \<open>div\<close> on \<open>nat\<close>.
  \<^item> \<^verbatim>\<open>top()\<close> and \<^verbatim>\<open>pop()\<close> are called on a non-empty queue only (the loop tests it).
\<close>

function push_heap_loop :: "Event list \<Rightarrow> nat \<Rightarrow> nat \<Rightarrow> Event \<Rightarrow> Event list" where
  "push_heap_loop c holeIndex topIndex v =
     (let parent = (holeIndex - 1) div 2 in
      if holeIndex > topIndex \<and> time (c ! parent) > time v
      then push_heap_loop (c[holeIndex := c ! parent]) parent topIndex v
      else c[holeIndex := v])"
  by pat_completeness auto
termination
  by (relation "measure (\<lambda>(c, holeIndex, topIndex, v). holeIndex)") auto

declare push_heap_loop.simps [simp del]

function adjust_down :: "Event list \<Rightarrow> nat \<Rightarrow> nat \<Rightarrow> Event list \<times> nat" where
  "adjust_down c holeIndex len =
     (if holeIndex < (len - 1) div 2
      then (let secondChild = 2 * (holeIndex + 1);
                secondChild = (if time (c ! secondChild) > time (c ! (secondChild - 1))
                               then secondChild - 1 else secondChild)
            in adjust_down (c[holeIndex := c ! secondChild]) secondChild len)
      else (c, holeIndex))"
  by pat_completeness auto
termination
  by (relation "measure (\<lambda>(c, holeIndex, len). len - holeIndex)") auto

declare adjust_down.simps [simp del]

definition adjust_heap :: "Event list \<Rightarrow> nat \<Rightarrow> nat \<Rightarrow> Event \<Rightarrow> Event list" where
  "adjust_heap c holeIndex len v =
     (let topIndex = holeIndex;
          (c, secondChild) = adjust_down c holeIndex len;
          (c, holeIndex) =
             (if len mod 2 = 0 \<and> secondChild = (len - 2) div 2
              then (c[secondChild := c ! (2 * (secondChild + 1) - 1)], 2 * (secondChild + 1) - 1)
              else (c, secondChild))
      in push_heap_loop c holeIndex topIndex v)"

definition pq_push :: "Event \<Rightarrow> Event list \<Rightarrow> Event list" where
  "pq_push x c = push_heap_loop (c @ [x]) (length c) 0 x"

definition pq_top :: "Event list \<Rightarrow> Event" where
  "pq_top c = c ! 0"

definition pq_pop :: "Event list \<Rightarrow> Event list" where
  "pq_pop c =
     (if length c > 1 then adjust_heap (butlast c) 0 (length c - 1) (last c)
      else butlast c)"

section \<open>The manufacturing system\<close>

definition ManufacturingSystem_init :: "(nat \<Rightarrow> real) \<Rightarrow> ManufacturingSystem" where
  \<comment> \<open>The constructor. Its argument is the sample sequence fixed by
      \<^verbatim>\<open>generator.seed(static_cast<unsigned>(std::time(nullptr)))\<close>.\<close>
  "ManufacturingSystem_init g =
     \<lparr> eventQueue = [],
       resources = [''machines'' \<mapsto> 10, ''operators'' \<mapsto> 5],
       availableResources = [''machines'' \<mapsto> 10, ''operators'' \<mapsto> 5],
       resourceUsageTime = [''machines'' \<mapsto> 0, ''operators'' \<mapsto> 0],
       resourceWaitingTime = [''machines'' \<mapsto> 0, ''operators'' \<mapsto> 0],
       rawMaterialCount = 0,
       finishedProducts = 0,
       currentTime = 0,
       generator = g,
       processingTimes = [''ProductA'' \<mapsto> [2, 3 / 2, 1, 1], ''ProductB'' \<mapsto> [3, 2, 3 / 2, 3 / 2]],
       productTypes = [''ProductA'' \<mapsto> 0, ''ProductB'' \<mapsto> 0],
       finishedProductsPerType = [''ProductA'' \<mapsto> 0, ''ProductB'' \<mapsto> 0],
       productQueue = [],
       machineSetupTimes = [''ProductA'' \<mapsto> 1 / 2, ''ProductB'' \<mapsto> 3 / 4],
       shiftLength = 8,
       cout = [] \<rparr>"

definition scheduleEvent ::
  "real \<Rightarrow> string \<Rightarrow> Action \<Rightarrow> ManufacturingSystem \<Rightarrow> ManufacturingSystem" where
  "scheduleEvent t ty a s =
     s\<lparr>eventQueue := pq_push \<lparr>time = t, etype = ty, action = a\<rparr> (eventQueue s)\<rparr>"

definition getStageName :: "int \<Rightarrow> string" where
  "getStageName stageIndex =
     (if stageIndex = 0 then ''machining''
      else if stageIndex = 1 then ''assembly''
      else if stageIndex = 2 then ''quality_control''
      else if stageIndex = 3 then ''packaging''
      else ''unknown'')"

text \<open>
  \<^verbatim>\<open>product.intermediateStage < processingTimes[product.type].size()\<close> compares an
  \<^verbatim>\<open>int\<close> with a \<^verbatim>\<open>size_t\<close>: the \<^verbatim>\<open>int\<close> is converted to unsigned, so a negative index
  becomes a value above every vector size and the comparison is false.
\<close>

definition index_below_size :: "int \<Rightarrow> 'a list \<Rightarrow> bool" where
  "index_below_size i xs = (0 \<le> i \<and> nat i < length xs)"

definition handleNextStage :: "Product \<Rightarrow> ManufacturingSystem \<Rightarrow> ManufacturingSystem" where
  "handleNextStage product s =
     (let times = lookup (processingTimes s) (ptype product) [];
          s = s\<lparr>processingTimes := inserted (processingTimes s) (ptype product) []\<rparr>
      in if index_below_size (intermediateStage product) times
         then (let processTime = times ! nat (intermediateStage product);
                   stage = getStageName (intermediateStage product);
                   available = lookup (availableResources s) stage 0;
                   s = s\<lparr>availableResources := inserted (availableResources s) stage 0\<rparr>
               in if available > 0
                  then (let setupTime =
                              (if intermediateStage product = 0
                               then lookup (machineSetupTimes s) (ptype product) 0 else 0);
                            s = (if intermediateStage product = 0
                                 then s\<lparr>machineSetupTimes :=
                                          inserted (machineSetupTimes s) (ptype product) 0\<rparr>
                                 else s);
                            s = s\<lparr>availableResources :=
                                    (availableResources s)(stage \<mapsto> available - 1)\<rparr>;
                            s = scheduleEvent (currentTime s + setupTime) ''setup''
                                  (SetupAction product processTime stage) s
                        in s\<lparr>resourceUsageTime := (resourceUsageTime s)
                                (stage \<mapsto> lookup (resourceUsageTime s) stage 0 + setupTime)\<rparr>)
                  else s\<lparr>resourceWaitingTime := (resourceWaitingTime s)
                          (stage \<mapsto> lookup (resourceWaitingTime s) stage 0 + processTime)\<rparr>)
         else s)"

definition setupDone ::
  "Product \<Rightarrow> real \<Rightarrow> string \<Rightarrow> ManufacturingSystem \<Rightarrow> ManufacturingSystem" where
  \<comment> \<open>the body of the closure scheduled under the type \<^verbatim>\<open>"setup"\<close>\<close>
  "setupDone product processTime stage s =
     (let s = s\<lparr>resourceUsageTime := (resourceUsageTime s)
                 (stage \<mapsto> lookup (resourceUsageTime s) stage 0 + processTime)\<rparr>
      in scheduleEvent (currentTime s + processTime) stage (CompleteAction product) s)"

definition completeStage :: "Product \<Rightarrow> ManufacturingSystem \<Rightarrow> ManufacturingSystem" where
  "completeStage product s =
     (let stage = getStageName (intermediateStage product);
          s = s\<lparr>cout := cout s @ [StageCompleted stage (ptype product) (currentTime s)]\<rparr>;
          s = s\<lparr>availableResources := (availableResources s)
                  (stage \<mapsto> lookup (availableResources s) stage 0 + 1)\<rparr>;
          product = product\<lparr>intermediateStage := intermediateStage product + 1\<rparr>;
          times = lookup (processingTimes s) (ptype product) [];
          s = s\<lparr>processingTimes := inserted (processingTimes s) (ptype product) []\<rparr>
      in if \<not> index_below_size (intermediateStage product) times
         then s\<lparr>finishedProducts := finishedProducts s + 1,
                finishedProductsPerType := (finishedProductsPerType s)
                  (ptype product \<mapsto> lookup (finishedProductsPerType s) (ptype product) 0 + 1)\<rparr>
         else handleNextStage product s)"

definition handleRawMaterialArrival ::
  "string \<Rightarrow> ManufacturingSystem \<Rightarrow> ManufacturingSystem" where
  "handleRawMaterialArrival productType s =
     (let s = s\<lparr>rawMaterialCount := rawMaterialCount s + 1\<rparr>;
          newProduct = \<lparr>ptype = productType, intermediateStage = 0\<rparr>;
          s = s\<lparr>productQueue := productQueue s @ [newProduct]\<rparr>;
          s = s\<lparr>cout := cout s @ [RawMaterialArrived productType (currentTime s)]\<rparr>;
          sample = generator s 0;
          s = s\<lparr>generator := (\<lambda>i. generator s (Suc i))\<rparr>;
          s = scheduleEvent (currentTime s + sample) ''raw_material_arrival''
                (ArrivalAction productType) s
      in handleNextStage newProduct s)"

definition handleBreakdown :: "string \<Rightarrow> ManufacturingSystem \<Rightarrow> ManufacturingSystem" where
  "handleBreakdown resource s =
     (let s = s\<lparr>cout := cout s @ [BreakdownOccurred resource (currentTime s)]\<rparr>
      in scheduleEvent (currentTime s + 5) ''maintenance'' (MaintenanceAction resource) s)"

definition handleMaintenance :: "string \<Rightarrow> ManufacturingSystem \<Rightarrow> ManufacturingSystem" where
  "handleMaintenance resource s =
     (let s = s\<lparr>cout := cout s @ [MaintenanceCompleted resource (currentTime s)]\<rparr>
      in s\<lparr>availableResources := (availableResources s)
              (resource \<mapsto> lookup (availableResources s) resource 0 + 1)\<rparr>)"

definition handleShiftChange :: "ManufacturingSystem \<Rightarrow> ManufacturingSystem" where
  "handleShiftChange s =
     (let s = s\<lparr>cout := cout s @ [ShiftChangeAt (currentTime s)]\<rparr>;
          s = s\<lparr>availableResources := resources s\<rparr>
      in scheduleEvent (currentTime s + real_of_int (shiftLength s)) ''shift_change''
           ShiftChangeAction s)"

fun fire :: "Action \<Rightarrow> ManufacturingSystem \<Rightarrow> ManufacturingSystem" where
  "fire (ArrivalAction productType) s = handleRawMaterialArrival productType s"
| "fire (SetupAction product processTime stage) s = setupDone product processTime stage s"
| "fire (CompleteAction product) s = completeStage product s"
| "fire (MaintenanceAction resource) s = handleMaintenance resource s"
| "fire ShiftChangeAction s = handleShiftChange s"

definition setAvailableResources ::
  "(string \<rightharpoonup> int) \<Rightarrow> ManufacturingSystem \<Rightarrow> ManufacturingSystem" where
  "setAvailableResources newAvailableResources s =
     s\<lparr>availableResources := newAvailableResources\<rparr>"

definition setResources ::
  "(string \<rightharpoonup> int) \<Rightarrow> ManufacturingSystem \<Rightarrow> ManufacturingSystem" where
  "setResources newResources s =
     s\<lparr>resources := newResources, availableResources := newResources\<rparr>"

subsection \<open>The driver\<close>

definition loopCondition :: "real \<Rightarrow> ManufacturingSystem \<Rightarrow> bool" where
  "loopCondition runTime s = (eventQueue s \<noteq> [] \<and> currentTime s < runTime)"

definition loopBody :: "ManufacturingSystem \<Rightarrow> ManufacturingSystem" where
  "loopBody s =
     (let currentEvent = pq_top (eventQueue s);
          s = s\<lparr>eventQueue := pq_pop (eventQueue s)\<rparr>;
          s = s\<lparr>currentTime := time currentEvent\<rparr>
      in fire (action currentEvent) s)"

text \<open>
  The \<^verbatim>\<open>while\<close> loop of \<^verbatim>\<open>runSimulation\<close> need not end (the arrival and the shift change
  reschedule themselves for ever, and the clock may stay below the bound), so its result is
  an option: \<open>None\<close> is a run that never leaves the loop.
\<close>

partial_function (option) eventLoop ::
  "real \<Rightarrow> ManufacturingSystem \<Rightarrow> ManufacturingSystem option" where
  "eventLoop runTime s =
     (if loopCondition runTime s then eventLoop runTime (loopBody s) else Some s)"

definition seedEvents :: "ManufacturingSystem \<Rightarrow> ManufacturingSystem" where
  \<comment> \<open>the two \<^verbatim>\<open>scheduleEvent\<close> calls that open \<^verbatim>\<open>runSimulation\<close>\<close>
  "seedEvents s =
     (let sample = generator s 0;
          s = s\<lparr>generator := (\<lambda>i. generator s (Suc i))\<rparr>;
          s = scheduleEvent sample ''raw_material_arrival'' (ArrivalAction ''ProductA'') s
      in scheduleEvent (real_of_int (shiftLength s)) ''shift_change'' ShiftChangeAction s)"

definition runSimulation :: "real \<Rightarrow> ManufacturingSystem \<Rightarrow> ManufacturingSystem option" where
  "runSimulation runTime s = eventLoop runTime (seedEvents s)"

text \<open>
  \<^verbatim>\<open>logData\<close> writes the four statistics to a file; the model keeps what is written.
\<close>

definition logData ::
  "ManufacturingSystem \<Rightarrow> (string \<rightharpoonup> real) \<times> (string \<rightharpoonup> real) \<times> int \<times> (string \<rightharpoonup> int)" where
  "logData s =
     (resourceUsageTime s, resourceWaitingTime s, finishedProducts s, finishedProductsPerType s)"

definition runScenario ::
  "string \<Rightarrow> int \<Rightarrow> int \<Rightarrow> real \<Rightarrow> (nat \<Rightarrow> real) \<Rightarrow> ManufacturingSystem option" where
  \<comment> \<open>\<^verbatim>\<open>productType\<close> is used for the name of the log file only\<close>
  "runScenario productType machineCount operatorCount runTime g =
     runSimulation runTime
       (setResources [''machines'' \<mapsto> machineCount, ''operators'' \<mapsto> operatorCount]
          (ManufacturingSystem_init g))"

text \<open>
  The first \<open>n\<close> iterations of the loop: the state they reach, and the events they pop.
\<close>

fun loopStates :: "nat \<Rightarrow> real \<Rightarrow> ManufacturingSystem \<Rightarrow> ManufacturingSystem" where
  "loopStates 0 runTime s = s"
| "loopStates (Suc n) runTime s =
     (if loopCondition runTime s then loopStates n runTime (loopBody s) else s)"

fun popped :: "nat \<Rightarrow> real \<Rightarrow> ManufacturingSystem \<Rightarrow> Event list" where
  "popped 0 runTime s = []"
| "popped (Suc n) runTime s =
     (if loopCondition runTime s
      then pq_top (eventQueue s) # popped n runTime (loopBody s) else [])"

declare eventLoop.simps [code]

section \<open>The heap invariant\<close>

text \<open>
  The vector is a binary min-heap on \<open>time\<close>: no element is earlier than its parent.
  \<open>heap_up d h\<close> is the same with the element at \<open>h\<close> possibly earlier than its parent.
\<close>

definition is_heap :: "Event list \<Rightarrow> bool" where
  "is_heap c = (\<forall>i \<in> {1..<length c}. time (c ! ((i - 1) div 2)) \<le> time (c ! i))"

definition heap_up :: "Event list \<Rightarrow> nat \<Rightarrow> bool" where
  "heap_up d h =
     ((\<forall>i \<in> {1..<length d}. i \<noteq> h \<longrightarrow> time (d ! ((i - 1) div 2)) \<le> time (d ! i)) \<and>
      (\<forall>i \<in> {1..<length d}. (i - 1) div 2 = h \<longrightarrow> 0 < h \<longrightarrow>
          time (d ! ((h - 1) div 2)) \<le> time (d ! i)))"

section \<open>Inputs, observations and invariants used in the statements\<close>

definition samplesFrom :: "real list \<Rightarrow> real \<Rightarrow> nat \<Rightarrow> real" where
  \<comment> \<open>a sample sequence: first the elements of \<open>xs\<close>, then \<open>d\<close> for ever\<close>
  "samplesFrom xs d i = (if i < length xs then xs ! i else d)"

definition available :: "ManufacturingSystem \<Rightarrow> string \<Rightarrow> int" where
  \<comment> \<open>what \<^verbatim>\<open>availableResources[r]\<close> reads\<close>
  "available s r = lookup (availableResources s) r 0"

definition capacity :: "ManufacturingSystem \<Rightarrow> string \<Rightarrow> int" where
  \<comment> \<open>the configured count of \<open>r\<close>, \<open>0\<close> for a name that was never configured\<close>
  "capacity s r = lookup (resources s) r 0"

definition busyTime :: "ManufacturingSystem \<Rightarrow> string \<Rightarrow> real" where
  "busyTime s r = lookup (resourceUsageTime s) r 0"

definition waitingTime :: "ManufacturingSystem \<Rightarrow> string \<Rightarrow> real" where
  "waitingTime s r = lookup (resourceWaitingTime s) r 0"

definition stageTimes :: "ManufacturingSystem \<Rightarrow> Product \<Rightarrow> real list" where
  \<comment> \<open>what \<^verbatim>\<open>processingTimes[product.type]\<close> reads\<close>
  "stageTimes s product = lookup (processingTimes s) (ptype product) []"

definition newEvent :: "real \<Rightarrow> string \<Rightarrow> Action \<Rightarrow> Event" where
  "newEvent t ty a = \<lparr>time = t, etype = ty, action = a\<rparr>"

text \<open>
  The line is idle when no stage name has a unit available or configured, and the queue
  holds only arrivals and shift changes. This is the state of every run that is configured
  with the names \<^verbatim>\<open>machines\<close> and \<^verbatim>\<open>operators\<close>.
\<close>

definition stagesClosed :: "ManufacturingSystem \<Rightarrow> bool" where
  "stagesClosed s = (\<forall>i. available s (getStageName i) = 0 \<and> capacity s (getStageName i) = 0)"

fun generatorAction :: "Action \<Rightarrow> bool" where
  "generatorAction (ArrivalAction productType) = True"
| "generatorAction ShiftChangeAction = True"
| "generatorAction a = False"

definition idleLine :: "ManufacturingSystem \<Rightarrow> bool" where
  "idleLine s =
     (stagesClosed s \<and> is_heap (eventQueue s) \<and>
      (\<forall>e \<in> set (eventQueue s). generatorAction (action e)))"

text \<open>
  The time of the \<open>k\<close>-th arrival event when nothing but arrivals and shift changes is
  ever scheduled: each arrival is scheduled for the clock of the previous one plus the next
  sample. \<open>shiftTimes\<close> picks the times of the lines \<^verbatim>\<open>Shift change at time ...\<close> out of
  the output.
\<close>

fun arrivalTime :: "(nat \<Rightarrow> real) \<Rightarrow> nat \<Rightarrow> real" where
  "arrivalTime g 0 = g 0"
| "arrivalTime g (Suc k) = arrivalTime g k + g (Suc k)"

fun shiftTimes :: "Output list \<Rightarrow> real list" where
  "shiftTimes [] = []"
| "shiftTimes (ShiftChangeAt t # out) = t # shiftTimes out"
| "shiftTimes (line # out) = shiftTimes out"

definition idleAt :: "ManufacturingSystem \<Rightarrow> (nat \<Rightarrow> real) \<Rightarrow> nat \<Rightarrow> real \<Rightarrow> bool" where
  \<comment> \<open>an idle line waiting for arrival number \<open>i\<close> and for the shift change of time \<open>t\<close>\<close>
  "idleAt s g i t =
     (idleLine s \<and> shiftLength s = 8 \<and> generator s = (\<lambda>j. g (Suc i + j)) \<and>
      mset (eventQueue s) =
        {#newEvent (arrivalTime g i) ''raw_material_arrival'' (ArrivalAction ''ProductA''),
          newEvent t ''shift_change'' ShiftChangeAction#})"

definition firedShiftChanges :: "ManufacturingSystem \<Rightarrow> real list" where
  \<comment> \<open>the times at which \<^verbatim>\<open>handleShiftChange\<close> has run, in order\<close>
  "firedShiftChanges s = shiftTimes (cout s)"

text \<open>
  A system is well formed when its queue is a heap of events that are not in the past, and
  no duration it can add to the clock is negative: the processing and setup times, the shift
  length, the samples still to be drawn, and the processing times captured by the setup
  events in the queue.
\<close>

fun actionTimed :: "Action \<Rightarrow> bool" where
  "actionTimed (SetupAction product processTime stage) = (0 \<le> processTime)"
| "actionTimed a = True"

definition wellFormed :: "ManufacturingSystem \<Rightarrow> bool" where
  "wellFormed s =
     (is_heap (eventQueue s) \<and>
      (\<forall>e \<in> set (eventQueue s). currentTime s \<le> time e \<and> actionTimed (action e)) \<and>
      (\<forall>ts \<in> ran (processingTimes s). \<forall>x \<in> set ts. 0 \<le> x) \<and>
      (\<forall>x \<in> ran (machineSetupTimes s). 0 \<le> x) \<and>
      0 \<le> shiftLength s \<and>
      (\<forall>i. 0 \<le> generator s i))"

text \<open>
  The part of a system that a run can depend on: everything but the arrival counter, the
  product queue, the table \<open>productTypes\<close> (none of them is read by a handler) and the
  output.
  Two systems agree on the seed, the configuration and the fresh accumulators when these
  parts are equal.
\<close>

definition core :: "ManufacturingSystem \<Rightarrow> ManufacturingSystem" where
  "core s = s\<lparr>rawMaterialCount := 0, productQueue := [], productTypes := Map.empty, cout := []\<rparr>"

definition sameSeedAndConfiguration :: "ManufacturingSystem \<Rightarrow> ManufacturingSystem \<Rightarrow> bool" where
  "sameSeedAndConfiguration s1 s2 =
     (generator s1 = generator s2 \<and>
      resources s1 = resources s2 \<and> availableResources s1 = availableResources s2 \<and>
      processingTimes s1 = processingTimes s2 \<and> machineSetupTimes s1 = machineSetupTimes s2 \<and>
      shiftLength s1 = shiftLength s2 \<and>
      eventQueue s1 = eventQueue s2 \<and> currentTime s1 = currentTime s2 \<and>
      resourceUsageTime s1 = resourceUsageTime s2 \<and>
      resourceWaitingTime s1 = resourceWaitingTime s2 \<and>
      finishedProducts s1 = finishedProducts s2 \<and>
      finishedProductsPerType s1 = finishedProductsPerType s2)"

definition queuedFor :: "real \<Rightarrow> ManufacturingSystem \<Rightarrow> string list" where
  \<comment> \<open>the types of the queued events that are due at time \<open>t\<close>\<close>
  "queuedFor t s = map etype (filter (\<lambda>e. time e = t) (eventQueue s))"




text \<open>
  What the handlers read of the available counts and of the waiting times: a count is read
  through \<^verbatim>\<open>operator[]\<close>, so a missing entry and an entry \<open>0\<close> are the same to them, and
  a waiting time is only ever added to.
\<close>

definition countsAsRead :: "ManufacturingSystem \<Rightarrow> ManufacturingSystem" where
  "countsAsRead s =
     s\<lparr>availableResources := (\<lambda>r. Some (available s r)), resourceWaitingTime := Map.empty\<rparr>"

section \<open>Properties of the priority queue\<close>

lemma push_heap_loop_length:
  "length (push_heap_loop c h tp v) = length c"
proof (induction c h tp v rule: push_heap_loop.induct)
  case (1 c h tp v)
  show ?case
    using 1 by (subst push_heap_loop.simps) (simp add: Let_def)
qed

lemma swap_mset:
  assumes "p < length c" "h < length c" "p \<noteq> h"
  shows "mset (c[h := c ! p, p := v]) = mset (c[h := v])"
proof -
  let ?d = "c[h := v]"
  have "mset (?d[h := ?d ! p, p := ?d ! h]) = mset ?d"
    using assms by (intro mset_swap) simp_all
  moreover have "?d[h := ?d ! p, p := ?d ! h] = c[h := c ! p, p := v]"
    using assms by simp
  ultimately show ?thesis by simp
qed

lemma push_heap_loop_mset:
  "h < length c \<Longrightarrow> mset (push_heap_loop c h tp v) = mset (c[h := v])"
proof (induction c h tp v rule: push_heap_loop.induct)
  case (1 c h tp v)
  let ?p = "(h - 1) div 2"
  show ?case
  proof (cases "h > tp \<and> time (c ! ?p) > time v")
    case True
    then have ph: "?p < h" by auto
    then have "mset (push_heap_loop (c[h := c ! ?p]) ?p tp v) = mset (c[h := c ! ?p, ?p := v])"
      using 1 True by simp
    also have "\<dots> = mset (c[h := v])"
      using ph 1(2) by (intro swap_mset) simp_all
    finally show ?thesis
      using True by (subst push_heap_loop.simps) (simp add: Let_def)
  next
    case False
    then show ?thesis
      by (subst push_heap_loop.simps) (auto simp add: Let_def)
  qed
qed

lemma heap_up_step:
  assumes hu: "heap_up d h" and h: "0 < h" "h < length d"
    and gt: "time (d ! ((h - 1) div 2)) > time (d ! h)"
  shows "heap_up (d[h := d ! ((h - 1) div 2), (h - 1) div 2 := d ! h]) ((h - 1) div 2)"
proof -
  let ?p = "(h - 1) div 2"
  let ?d' = "d[h := d ! ?p, ?p := d ! h]"
  have ph: "?p < h" using h by auto
  have c1: "\<And>i. 1 \<le> i \<Longrightarrow> i < length d \<Longrightarrow> i \<noteq> h \<Longrightarrow> time (d ! ((i - 1) div 2)) \<le> time (d ! i)"
    using hu by (simp add: heap_up_def)
  have c2: "\<And>i. 1 \<le> i \<Longrightarrow> i < length d \<Longrightarrow> (i - 1) div 2 = h \<Longrightarrow> time (d ! ?p) \<le> time (d ! i)"
    using hu h by (simp add: heap_up_def)
  have A: "time (?d' ! ((i - 1) div 2)) \<le> time (?d' ! i)"
    if i: "1 \<le> i" "i < length d" "i \<noteq> ?p" for i
  proof (cases "i = h")
    case True
    then show ?thesis using ph h gt by simp
  next
    case False
    have pi: "(i - 1) div 2 < i" using i by auto
    consider "(i - 1) div 2 = h" | "(i - 1) div 2 = ?p" | "(i - 1) div 2 \<noteq> h" "(i - 1) div 2 \<noteq> ?p"
      by blast
    then show ?thesis
    proof cases
      case 1
      then show ?thesis using c2[OF i(1,2)] False i ph h by simp
    next
      case 2
      have "time (d ! h) \<le> time (d ! i)"
        using c1[OF i(1,2) False] 2 gt by simp
      then show ?thesis using 2 False i ph h by simp
    next
      case 3
      then show ?thesis using c1[OF i(1,2) False] False i by simp
    qed
  qed
  have B: "time (?d' ! ((?p - 1) div 2)) \<le> time (?d' ! i)"
    if i: "1 \<le> i" "i < length d" "(i - 1) div 2 = ?p" "0 < ?p" for i
  proof -
    have pp: "(?p - 1) div 2 < ?p" using i(4) by auto
    have le: "time (d ! ((?p - 1) div 2)) \<le> time (d ! ?p)"
      using c1[of ?p] i(4) ph h by simp
    have ip: "i \<noteq> ?p" using i by auto
    show ?thesis
    proof (cases "i = h")
      case True
      then show ?thesis using le pp ph h by simp
    next
      case False
      have "time (d ! ?p) \<le> time (d ! i)" using c1[OF i(1,2) False] i(3) by simp
      then show ?thesis using le pp ph h False ip by simp
    qed
  qed
  show ?thesis
    unfolding heap_up_def using A B by simp
qed

lemma heap_up_done:
  assumes "heap_up d h" "h < length d" "h = 0 \<or> time (d ! ((h - 1) div 2)) \<le> time (d ! h)"
  shows "is_heap d"
  unfolding is_heap_def
proof
  fix i assume "i \<in> {1..<length d}"
  then show "time (d ! ((i - 1) div 2)) \<le> time (d ! i)"
    using assms by (cases "i = h") (auto simp: heap_up_def)
qed

lemma push_heap_loop_heap:
  "h < length c \<Longrightarrow> heap_up (c[h := v]) h \<Longrightarrow> is_heap (push_heap_loop c h 0 v)"
proof (induction c h "0::nat" v rule: push_heap_loop.induct)
  case (1 c h v)
  let ?p = "(h - 1) div 2"
  let ?d = "c[h := v]"
  show ?case
  proof (cases "h > 0 \<and> time (c ! ?p) > time v")
    case True
    then have ph: "?p < h" by auto
    have gt: "time (?d ! ?p) > time (?d ! h)"
      using True ph 1(2) by simp
    have "heap_up (?d[h := ?d ! ?p, ?p := ?d ! h]) ?p"
      using heap_up_step[OF 1(3) _ _ gt] True 1(2) by simp
    moreover have "?d[h := ?d ! ?p, ?p := ?d ! h] = (c[h := c ! ?p])[?p := v]"
      using ph 1(2) by simp
    ultimately have "heap_up ((c[h := c ! ?p])[?p := v]) ?p" by simp
    then have "is_heap (push_heap_loop (c[h := c ! ?p]) ?p 0 v)"
      using 1(1)[OF refl] True ph 1(2) by simp
    then show ?thesis
      using True by (subst push_heap_loop.simps) (simp add: Let_def)
  next
    case False
    have "is_heap ?d"
    proof (rule heap_up_done[OF 1(3)])
      show "h < length ?d" using 1(2) by simp
      show "h = 0 \<or> time (?d ! ?p) \<le> time (?d ! h)"
      proof (cases "h = 0")
        case False
        then have "?p < h" by auto
        then show ?thesis using \<open>\<not> (h > 0 \<and> time (c ! ?p) > time v)\<close> False 1(2) by simp
      qed simp
    qed
    then show ?thesis
      using False by (subst push_heap_loop.simps) (auto simp add: Let_def)
  qed
qed

lemma pq_push_mset: "mset (pq_push x c) = add_mset x (mset c)"
  by (simp add: pq_push_def push_heap_loop_mset)

lemma pq_push_length: "length (pq_push x c) = Suc (length c)"
  by (simp add: pq_push_def push_heap_loop_length)

lemma pq_push_heap:
  assumes "is_heap c"
  shows "is_heap (pq_push x c)"
proof -
  have "heap_up ((c @ [x])[length c := x]) (length c)"
    unfolding heap_up_def
  proof (intro conjI ballI impI)
    fix i assume "i \<in> {1..<length ((c @ [x])[length c := x])}" "i \<noteq> length c"
    then have i: "1 \<le> i" "i < length c" by auto
    then have "(i - 1) div 2 < length c" by auto
    then show "time ((c @ [x])[length c := x] ! ((i - 1) div 2))
        \<le> time ((c @ [x])[length c := x] ! i)"
      using assms i by (simp add: is_heap_def nth_append)
  next
    fix i assume "i \<in> {1..<length ((c @ [x])[length c := x])}" "(i - 1) div 2 = length c"
    then have False by auto
    then show "time ((c @ [x])[length c := x] ! ((length c - 1) div 2))
        \<le> time ((c @ [x])[length c := x] ! i)" ..
  qed
  then show ?thesis
    unfolding pq_push_def by (intro push_heap_loop_heap) simp_all
qed

lemma adjust_down_length:
  "length (fst (adjust_down c h len)) = length c"
proof (induction c h len rule: adjust_down.induct)
  case (1 c h len)
  show ?case
    using 1 by (subst adjust_down.simps) (simp add: Let_def)
qed

lemma adjust_down_unfold:
  assumes "h < (len - 1) div 2"
  shows "adjust_down c h len =
    adjust_down (c[h := c ! (if time (c ! (2 * (h + 1))) > time (c ! (2 * (h + 1) - 1))
                             then 2 * (h + 1) - 1 else 2 * (h + 1))])
      (if time (c ! (2 * (h + 1))) > time (c ! (2 * (h + 1) - 1))
       then 2 * (h + 1) - 1 else 2 * (h + 1)) len"
  using assms by (subst adjust_down.simps) (simp only: Let_def if_True)

lemma adjust_down_stop:
  assumes "\<not> h < (len - 1) div 2"
  shows "adjust_down c h len = (c, h)"
  using assms by (subst adjust_down.simps) (simp only: if_False)

lemma adjust_down_hole:
  "h < len \<Longrightarrow> (len - 1) div 2 \<le> snd (adjust_down c h len) \<and> snd (adjust_down c h len) < len"
proof (induction c h len rule: adjust_down.induct)
  case (1 c h len)
  show ?case
  proof (cases "h < (len - 1) div 2")
    case True
    define k where "k = (if time (c ! (2 * (h + 1))) > time (c ! (2 * (h + 1) - 1))
                             then 2 * (h + 1) - 1 else 2 * (h + 1))"
    have unf: "adjust_down c h len = adjust_down (c[h := c ! k]) k len"
      unfolding k_def by (rule adjust_down_unfold[OF True])
    have "2 * (h + 1) < len" using True by auto
    then have "k < len" by (simp add: k_def)
    then have "(len - 1) div 2 \<le> snd (adjust_down (c[h := c ! k]) k len) \<and>
               snd (adjust_down (c[h := c ! k]) k len) < len"
      using 1(1)[OF True refl] unfolding k_def by simp
    then show ?thesis unfolding unf .
  next
    case False
    then show ?thesis
      using 1(2) by (simp add: adjust_down_stop)
  qed
qed

lemma hole_step_heap:
  assumes hp: "is_heap c" and k: "k < length c" "(k - 1) div 2 = h" "0 < k"
    and least: "\<And>j. j < length c \<Longrightarrow> 0 < j \<Longrightarrow> (j - 1) div 2 = h \<Longrightarrow> time (c ! k) \<le> time (c ! j)"
  shows "is_heap (c[h := c ! k])"
  unfolding is_heap_def
proof
  fix i assume "i \<in> {1..<length (c[h := c ! k])}"
  then have i: "1 \<le> i" "i < length c" by auto
  have hk: "h < k" using k by auto
  have e: "\<And>j. 1 \<le> j \<Longrightarrow> j < length c \<Longrightarrow> time (c ! ((j - 1) div 2)) \<le> time (c ! j)"
    using hp by (simp add: is_heap_def)
  have pi: "(i - 1) div 2 < i" using i by auto
  show "time (c[h := c ! k] ! ((i - 1) div 2)) \<le> time (c[h := c ! k] ! i)"
  proof (cases "i = h")
    case True
    have "time (c ! ((h - 1) div 2)) \<le> time (c ! h)" using e[of h] True i by simp
    moreover have "time (c ! h) \<le> time (c ! k)" using e[of k] k by simp
    ultimately show ?thesis using True pi i hk k by simp
  next
    case False
    show ?thesis
    proof (cases "(i - 1) div 2 = h")
      case True
      then show ?thesis using least[of i] i False hk k by simp
    next
      case F2: False
      then show ?thesis using e[OF i] False by simp
    qed
  qed
qed


lemma adjust_down_heap:
  "is_heap c \<Longrightarrow> len = length c \<Longrightarrow> is_heap (fst (adjust_down c h len))"
proof (induction c h len rule: adjust_down.induct)
  case (1 c h len)
  show ?case
  proof (cases "h < (len - 1) div 2")
    case True
    define r where "r = 2 * (h + 1)"
    define k where "k = (if time (c ! r) > time (c ! (r - 1)) then r - 1 else r)"
    have unf: "adjust_down c h len = adjust_down (c[h := c ! k]) k len"
      unfolding k_def r_def by (rule adjust_down_unfold[OF True])
    have r: "r < length c" using True 1(3) by (auto simp: r_def)
    have kk: "k < length c" "(k - 1) div 2 = h" "0 < k" using r by (auto simp: k_def r_def)
    have "is_heap (c[h := c ! k])"
    proof (rule hole_step_heap[OF 1(2) kk])
      fix j assume j: "j < length c" "0 < j" "(j - 1) div 2 = h"
      then have "j = r \<or> j = r - 1" by (auto simp: r_def)
      then show "time (c ! k) \<le> time (c ! j)" by (auto simp: k_def)
    qed
    then have "is_heap (fst (adjust_down (c[h := c ! k]) k len))"
      using 1(1)[OF True refl refl] 1(3) unfolding k_def r_def by simp
    then show ?thesis unfolding unf .
  next
    case False
    then show ?thesis
      using 1(2) by (simp add: adjust_down_stop)
  qed
qed

lemma mset_cancel_helper:
  assumes "add_mset a M1 = add_mset b M2" "add_mset c M2 = add_mset a M3"
  shows "add_mset c M1 = add_mset b M3"
proof -
  have "add_mset a (add_mset c M1) = add_mset c (add_mset b M2)"
    using assms(1) by (simp add: add_mset_commute)
  also have "\<dots> = add_mset b (add_mset a M3)"
    using assms(2) by (simp add: add_mset_commute)
  finally have "add_mset a (add_mset c M1) = add_mset a (add_mset b M3)"
    by (simp add: add_mset_commute)
  then show ?thesis by simp
qed

lemma adjust_down_mset:
  "h < len \<Longrightarrow> len = length c \<Longrightarrow>
   add_mset (c ! h) (mset (fst (adjust_down c h len))) =
   add_mset (fst (adjust_down c h len) ! snd (adjust_down c h len)) (mset c)"
proof (induction c h len rule: adjust_down.induct)
  case (1 c h len)
  show ?case
  proof (cases "h < (len - 1) div 2")
    case True
    define r where "r = 2 * (h + 1)"
    define k where "k = (if time (c ! r) > time (c ! (r - 1)) then r - 1 else r)"
    define c1 where "c1 = c[h := c ! k]"
    define res where "res = adjust_down c1 k len"
    have unf: "adjust_down c h len = res"
      unfolding res_def c1_def k_def r_def by (rule adjust_down_unfold[OF True])
    have r: "r < length c" using True 1(3) by (auto simp: r_def)
    have kk: "k < length c" "h < k" using r by (auto simp: k_def r_def)
    have ih: "add_mset (c1 ! k) (mset (fst res)) = add_mset (fst res ! snd res) (mset c1)"
      using 1(1)[OF True refl refl] kk 1(3) unfolding res_def c1_def k_def r_def by simp
    have c1k: "c1 ! k = c ! k" using kk by (simp add: c1_def)
    have m1: "add_mset (c ! h) (mset c1) = add_mset (c ! k) (mset c)"
      using 1(2,3) by (simp add: c1_def mset_update)
    have "add_mset (c ! h) (mset (fst res)) = add_mset (fst res ! snd res) (mset c)"
      by (rule mset_cancel_helper[OF ih[unfolded c1k] m1])
    then show ?thesis unfolding unf .
  next
    case False
    then show ?thesis
      by (simp add: adjust_down_stop)
  qed
qed

lemma heap_top_le:
  assumes "is_heap c"
  shows "i < length c \<Longrightarrow> time (c ! 0) \<le> time (c ! i)"
proof (induction i rule: less_induct)
  case (less i)
  show ?case
  proof (cases "i = 0")
    case False
    then have "(i - 1) div 2 < i" by auto
    moreover have "time (c ! ((i - 1) div 2)) \<le> time (c ! i)"
      using assms False less.prems by (simp add: is_heap_def)
    ultimately show ?thesis
      using less.IH[of "(i - 1) div 2"] less.prems by simp
  qed simp
qed

lemma pq_top_least:
  assumes "is_heap c" "e \<in> set c"
  shows "time (pq_top c) \<le> time e"
  using assms heap_top_le by (auto simp: pq_top_def in_set_conv_nth)

lemma leaf_heap_up:
  assumes hp: "is_heap c" and leaf: "\<And>i. 1 \<le> i \<Longrightarrow> i < length c \<Longrightarrow> (i - 1) div 2 \<noteq> h"
  shows "heap_up (c[h := v]) h"
  unfolding heap_up_def
proof (intro conjI ballI impI)
  fix i assume "i \<in> {1..<length (c[h := v])}" "i \<noteq> h"
  then have i: "1 \<le> i" "i < length c" "i \<noteq> h" by auto
  then have "(i - 1) div 2 \<noteq> h" using leaf by simp
  then show "time (c[h := v] ! ((i - 1) div 2)) \<le> time (c[h := v] ! i)"
    using hp i by (simp add: is_heap_def)
next
  fix i assume "i \<in> {1..<length (c[h := v])}" "(i - 1) div 2 = h"
  then have False using leaf[of i] by auto
  then show "time (c[h := v] ! ((h - 1) div 2)) \<le> time (c[h := v] ! i)" ..
qed

lemma adjust_heap_props:
  assumes hp: "is_heap c" and len: "len = length c" "0 < len"
  shows "is_heap (adjust_heap c 0 len v)"
    and "add_mset (c ! 0) (mset (adjust_heap c 0 len v)) = add_mset v (mset c)"
    and "length (adjust_heap c 0 len v) = length c"
proof -
  define c1 where "c1 = fst (adjust_down c 0 len)"
  define sc where "sc = snd (adjust_down c 0 len)"
  define only where "only = (len mod 2 = 0 \<and> sc = (len - 2) div 2)"
  define k where "k = 2 * (sc + 1) - 1"
  define c2 where "c2 = (if only then c1[sc := c1 ! k] else c1)"
  define h2 where "h2 = (if only then k else sc)"
  have res: "adjust_heap c 0 len v = push_heap_loop c2 h2 0 v"
    by (simp add: adjust_heap_def Let_def split_beta c1_def sc_def only_def k_def c2_def h2_def)
  have l1: "length c1 = length c" by (simp add: c1_def adjust_down_length)
  have sc: "(len - 1) div 2 \<le> sc" "sc < len"
    using adjust_down_hole[of 0 len c] len by (simp_all add: sc_def)
  have h1: "is_heap c1" using hp len by (simp add: c1_def adjust_down_heap)
  have m1: "add_mset (c ! 0) (mset c1) = add_mset (c1 ! sc) (mset c)"
    using adjust_down_mset[of 0 len c] len by (simp add: c1_def sc_def)
  have l2: "length c2 = length c" by (simp add: c2_def l1)
  have ev: "only \<Longrightarrow> 2 * sc + 2 = len"
    using len(2) unfolding only_def by presburger
  have kk: "only \<Longrightarrow> k < length c1 \<and> (k - 1) div 2 = sc \<and> 0 < k \<and> k = len - 1 \<and> sc < k"
    using ev len(1) unfolding k_def l1 by auto
  have h2l: "h2 < length c2" using kk sc len by (auto simp: h2_def l2 l1)
  have hp2: "is_heap c2"
  proof (cases only)
    case True
    have "is_heap (c1[sc := c1 ! k])"
    proof (rule hole_step_heap[OF h1])
      show "k < length c1" "(k - 1) div 2 = sc" "0 < k" using kk True by auto
      fix j assume "j < length c1" "0 < j" "(j - 1) div 2 = sc"
      then have "j < 2 * sc + 2" "2 * sc + 1 \<le> j" using ev[OF True] len l1 by auto
      then have "j = k" unfolding k_def by simp
      then show "time (c1 ! k) \<le> time (c1 ! j)" by simp
    qed
    then show ?thesis by (simp add: c2_def True)
  next
    case False
    then show ?thesis using h1 by (simp add: c2_def)
  qed
  have m2: "add_mset (c ! 0) (mset c2) = add_mset (c2 ! h2) (mset c)"
  proof (cases only)
    case True
    have a: "add_mset (c1 ! sc) (mset (c1[sc := c1 ! k])) = add_mset (c1 ! k) (mset c1)"
      using sc len l1 by (simp add: mset_update)
    have b: "c2 ! h2 = c1 ! k" using True kk by (simp add: c2_def h2_def)
    have "add_mset (c ! 0) (mset (c1[sc := c1 ! k])) = add_mset (c1 ! k) (mset c)"
      by (rule mset_cancel_helper[OF a m1])
    then show ?thesis using True b by (simp add: c2_def)
  next
    case False
    then show ?thesis using m1 by (simp add: c2_def h2_def)
  qed
  have leaf: "(i - 1) div 2 \<noteq> h2" if "1 \<le> i" "i < length c2" for i
  proof (cases only)
    case True
    then show ?thesis using kk that l2 len by (auto simp: h2_def)
  next
    case False
    then have "len mod 2 \<noteq> 0 \<or> sc \<noteq> (len - 2) div 2" by (simp add: only_def)
    then have "len \<le> 2 * sc + 1" using sc by presburger
    then show ?thesis using that False l2 len by (auto simp: h2_def)
  qed
  have hu: "heap_up (c2[h2 := v]) h2"
    by (rule leaf_heap_up[OF hp2]) (use leaf in auto)
  show "is_heap (adjust_heap c 0 len v)"
    unfolding res by (rule push_heap_loop_heap[OF h2l hu])
  show "length (adjust_heap c 0 len v) = length c"
    unfolding res by (simp add: push_heap_loop_length l2)
  have "mset (adjust_heap c 0 len v) = mset (c2[h2 := v])"
    unfolding res by (rule push_heap_loop_mset[OF h2l])
  moreover have "add_mset (c2 ! h2) (mset (c2[h2 := v])) = add_mset v (mset c2)"
    using h2l by (simp add: mset_update)
  ultimately have c: "add_mset (c2 ! h2) (mset (adjust_heap c 0 len v)) = add_mset v (mset c2)"
    by simp
  have "add_mset (c ! 0) (add_mset (c2 ! h2) (mset (adjust_heap c 0 len v))) =
        add_mset v (add_mset (c2 ! h2) (mset c))"
    using c m2 by (simp add: add_mset_commute)
  then show "add_mset (c ! 0) (mset (adjust_heap c 0 len v)) = add_mset v (mset c)"
    by (simp add: add_mset_commute)
qed

lemma is_heap_butlast: "is_heap c \<Longrightarrow> is_heap (butlast c)"
  by (auto simp: is_heap_def nth_butlast)

lemma pq_pop_heap:
  assumes "is_heap c"
  shows "is_heap (pq_pop c)"
proof (cases "length c > 1")
  case True
  then show ?thesis
    using adjust_heap_props(1)[OF is_heap_butlast[OF assms], of "length c - 1" "last c"]
    by (simp add: pq_pop_def)
next
  case False
  then show ?thesis using is_heap_butlast[OF assms] by (simp add: pq_pop_def)
qed

lemma pq_pop_mset:
  assumes "is_heap c" "c \<noteq> []"
  shows "add_mset (pq_top c) (mset (pq_pop c)) = mset c"
proof (cases "length c > 1")
  case True
  have c: "c = butlast c @ [last c]" using assms(2) by simp
  have "add_mset (butlast c ! 0) (mset (adjust_heap (butlast c) 0 (length c - 1) (last c)))
       = add_mset (last c) (mset (butlast c))"
    using adjust_heap_props(2)[OF is_heap_butlast[OF assms(1)], of "length c - 1" "last c"] True
    by simp
  moreover have "butlast c ! 0 = c ! 0" using True by (simp add: nth_butlast)
  moreover have "add_mset (last c) (mset (butlast c)) = mset c"
    by (subst (3) c) (simp del: append_butlast_last_id)
  ultimately show ?thesis using True by (simp add: pq_pop_def pq_top_def)
next
  case False
  then obtain x where "c = [x]" using assms(2) by (cases c) auto
  then show ?thesis by (simp add: pq_pop_def pq_top_def)
qed

lemma pq_pop_length: "length (pq_pop c) = length c - 1"
proof (cases "length c > 1")
  case True
  have "length (adjust_heap (butlast c) 0 (length c - 1) (last c)) = length (butlast c)"
    unfolding adjust_heap_def Let_def split_beta
    by (simp add: push_heap_loop_length adjust_down_length)
  then show ?thesis using True by (simp add: pq_pop_def)
next
  case False
  then show ?thesis by (simp add: pq_pop_def)
qed

section \<open>Scheduling\<close>

text \<open>
  Claim C5, as amended. \<^verbatim>\<open>scheduleEvent\<close> compares the time of the new event with nothing:
  whatever \<open>t\<close> is, also when it lies before \<open>currentTime\<close>, the event is pushed, so the
  queue holds exactly the old events and the new one, and no other field of the system
  changes. The program has no error value for a time in the past.
\<close>

theorem scheduleEvent_always_inserts:
  "mset (eventQueue (scheduleEvent t ty a s)) = add_mset (newEvent t ty a) (mset (eventQueue s)) \<and>
   scheduleEvent t ty a s = s\<lparr>eventQueue := eventQueue (scheduleEvent t ty a s)\<rparr>"
  by (simp add: scheduleEvent_def newEvent_def pq_push_mset)

text \<open>
  Claim C5 as stated fails. After the first arrival, popped at time \<open>3\<close>, the clock reads
  \<open>3\<close>; an event scheduled for time \<open>1\<close> is accepted and becomes the top of the queue.
\<close>

theorem scheduleEvent_past_counterexample:
  "currentTime (loopStates 1 10 (seedEvents (ManufacturingSystem_init (samplesFrom [3] 1)))) = 3 \<and>
   map time (eventQueue (scheduleEvent 1 ''maintenance'' (MaintenanceAction ''machines'')
     (loopStates 1 10 (seedEvents (ManufacturingSystem_init (samplesFrom [3] 1)))))) = [1, 8, 4]"
  by code_simp

section \<open>The handlers, branch by branch\<close>

lemma getStageName_not_configured:
  "getStageName i \<noteq> ''machines''" "getStageName i \<noteq> ''operators''"
  by (simp_all add: getStageName_def)

lemma handleNextStage_waiting:
  assumes "index_below_size (intermediateStage p) (stageTimes s p)"
    and "available s (getStageName (intermediateStage p)) \<le> 0"
  shows "handleNextStage p s =
     s\<lparr>processingTimes := inserted (processingTimes s) (ptype p) [],
       availableResources := inserted (availableResources s) (getStageName (intermediateStage p)) 0,
       resourceWaitingTime := (resourceWaitingTime s)
         (getStageName (intermediateStage p) \<mapsto>
            waitingTime s (getStageName (intermediateStage p))
              + stageTimes s p ! nat (intermediateStage p))\<rparr>"
  using assms
  by (simp add: handleNextStage_def Let_def stageTimes_def available_def waitingTime_def)

lemma handleNextStage_skip:
  assumes "\<not> index_below_size (intermediateStage p) (stageTimes s p)"
  shows "handleNextStage p s =
     s\<lparr>processingTimes := inserted (processingTimes s) (ptype p) []\<rparr>"
  using assms
  by (simp add: handleNextStage_def Let_def stageTimes_def)

lemma handleNextStage_acquire:
  assumes "index_below_size (intermediateStage p) (stageTimes s p)"
    and "0 < available s (getStageName (intermediateStage p))"
  shows "handleNextStage p s =
     s\<lparr>processingTimes := inserted (processingTimes s) (ptype p) [],
       machineSetupTimes :=
         (if intermediateStage p = 0 then inserted (machineSetupTimes s) (ptype p) 0
          else machineSetupTimes s),
       availableResources := (availableResources s)
         (getStageName (intermediateStage p) \<mapsto> available s (getStageName (intermediateStage p)) - 1),
       eventQueue := pq_push
          (newEvent (currentTime s +
              (if intermediateStage p = 0 then lookup (machineSetupTimes s) (ptype p) 0 else 0))
            ''setup''
            (SetupAction p (stageTimes s p ! nat (intermediateStage p))
               (getStageName (intermediateStage p))))
          (eventQueue s),
       resourceUsageTime := (resourceUsageTime s)
         (getStageName (intermediateStage p) \<mapsto>
            busyTime s (getStageName (intermediateStage p)) +
              (if intermediateStage p = 0 then lookup (machineSetupTimes s) (ptype p) 0 else 0))\<rparr>"
  using assms
  by (simp add: handleNextStage_def Let_def stageTimes_def available_def busyTime_def
      scheduleEvent_def newEvent_def inserted_def split: option.splits)

section \<open>The loop and its first iterations\<close>

lemma lookup_inserted [simp]: "lookup (inserted m k d) k' d = lookup m k' d"
  by (simp add: lookup_def inserted_def split: option.splits)

lemma lookup_upd [simp]: "lookup (m(k \<mapsto> v)) k' d = (if k' = k then v else lookup m k' d)"
  by (simp add: lookup_def)

lemma set_pq_push [simp]: "set (pq_push x c) = insert x (set c)"
  using pq_push_mset[of x c] by (metis set_mset_add_mset_insert set_mset_mset)

lemma set_pq_pop:
  assumes "is_heap c" "e \<in> set (pq_pop c)"
  shows "e \<in> set c"
proof (cases "c = []")
  case True
  then show ?thesis using assms(2) by (simp add: pq_pop_def)
next
  case False
  have "e \<in># add_mset (pq_top c) (mset (pq_pop c))" using assms(2) by simp
  then show ?thesis unfolding pq_pop_mset[OF assms(1) False] by simp
qed

lemma eventLoop_stop: "\<not> loopCondition rt s \<Longrightarrow> eventLoop rt s = Some s"
  by (subst eventLoop.simps) simp

lemma eventLoop_step: "loopCondition rt s \<Longrightarrow> eventLoop rt s = eventLoop rt (loopBody s)"
  by (subst eventLoop.simps) simp

lemma eventLoop_loopStates:
  "eventLoop rt (loopStates n rt s) = eventLoop rt s"
proof (induction n arbitrary: s)
  case (Suc n)
  then show ?case by (simp add: eventLoop_step)
qed simp

lemma eventLoop_exit:
  assumes "\<not> loopCondition rt (loopStates n rt s)"
  shows "eventLoop rt s = Some (loopStates n rt s)"
  using eventLoop_loopStates[of rt n s] eventLoop_stop[OF assms] by simp


lemma eventLoop_Some:
  assumes "eventLoop rt s = Some s'"
  shows "\<exists>n. s' = loopStates n rt s \<and> \<not> loopCondition rt s'"
proof (rule eventLoop.raw_induct
    [where P = "\<lambda>rt s s'. \<exists>n. s' = loopStates n rt s \<and> \<not> loopCondition rt s'", OF _ assms])
  fix f rt s s'
  assume IH: "\<And>rt s y. f rt s = Some y \<Longrightarrow> \<exists>n. y = loopStates n rt s \<and> \<not> loopCondition rt y"
    and eq: "(if loopCondition rt s then f rt (loopBody s) else Some s) = Some s'"
  show "\<exists>n. s' = loopStates n rt s \<and> \<not> loopCondition rt s'"
  proof (cases "loopCondition rt s")
    case True
    then have "f rt (loopBody s) = Some s'" using eq by simp
    then obtain n where "s' = loopStates n rt (loopBody s)" "\<not> loopCondition rt s'"
      using IH by blast
    then have "s' = loopStates (Suc n) rt s \<and> \<not> loopCondition rt s'" using True by simp
    then show ?thesis by blast
  next
    case False
    then have "s' = loopStates 0 rt s \<and> \<not> loopCondition rt s'" using eq by simp
    then show ?thesis by blast
  qed
qed

lemma loopStates_invariant:
  assumes "P s" and "\<And>s. P s \<Longrightarrow> loopCondition rt s \<Longrightarrow> P (loopBody s)"
  shows "P (loopStates n rt s)"
  using assms(1)
proof (induction n arbitrary: s)
  case (Suc n)
  then show ?case using assms(2) by simp
qed simp

section \<open>Runs with no stage configured\<close>

lemma handleNextStage_blocked:
  assumes "available s (getStageName (intermediateStage p)) \<le> 0"
  shows "eventQueue (handleNextStage p s) = eventQueue s"
    and "currentTime (handleNextStage p s) = currentTime s"
    and "generator (handleNextStage p s) = generator s"
    and "cout (handleNextStage p s) = cout s"
    and "resources (handleNextStage p s) = resources s"
    and "shiftLength (handleNextStage p s) = shiftLength s"
    and "finishedProducts (handleNextStage p s) = finishedProducts s"
    and "finishedProductsPerType (handleNextStage p s) = finishedProductsPerType s"
    and "resourceUsageTime (handleNextStage p s) = resourceUsageTime s"
    and "available (handleNextStage p s) r = available s r"
proof -
  consider (w) "index_below_size (intermediateStage p) (stageTimes s p)"
    | (k) "\<not> index_below_size (intermediateStage p) (stageTimes s p)" by blast
  then have "eventQueue (handleNextStage p s) = eventQueue s
    \<and> currentTime (handleNextStage p s) = currentTime s
    \<and> generator (handleNextStage p s) = generator s
    \<and> cout (handleNextStage p s) = cout s
    \<and> resources (handleNextStage p s) = resources s
    \<and> shiftLength (handleNextStage p s) = shiftLength s
    \<and> finishedProducts (handleNextStage p s) = finishedProducts s
    \<and> finishedProductsPerType (handleNextStage p s) = finishedProductsPerType s
    \<and> resourceUsageTime (handleNextStage p s) = resourceUsageTime s
    \<and> available (handleNextStage p s) r = available s r"
  proof cases
    case w
    show ?thesis
      by (simp add: handleNextStage_waiting[OF w assms] available_def)
  next
    case k
    show ?thesis
      by (simp add: handleNextStage_skip[OF k] available_def)
  qed
  then show "eventQueue (handleNextStage p s) = eventQueue s"
    and "currentTime (handleNextStage p s) = currentTime s"
    and "generator (handleNextStage p s) = generator s"
    and "cout (handleNextStage p s) = cout s"
    and "resources (handleNextStage p s) = resources s"
    and "shiftLength (handleNextStage p s) = shiftLength s"
    and "finishedProducts (handleNextStage p s) = finishedProducts s"
    and "finishedProductsPerType (handleNextStage p s) = finishedProductsPerType s"
    and "resourceUsageTime (handleNextStage p s) = resourceUsageTime s"
    and "available (handleNextStage p s) r = available s r"
    by simp_all
qed

lemma arrival_idle:
  assumes "stagesClosed s"
  shows "eventQueue (handleRawMaterialArrival pt s) =
           pq_push (newEvent (currentTime s + generator s 0) ''raw_material_arrival''
                      (ArrivalAction pt)) (eventQueue s)"
    and "currentTime (handleRawMaterialArrival pt s) = currentTime s"
    and "generator (handleRawMaterialArrival pt s) = (\<lambda>i. generator s (Suc i))"
    and "cout (handleRawMaterialArrival pt s) = cout s @ [RawMaterialArrived pt (currentTime s)]"
    and "resources (handleRawMaterialArrival pt s) = resources s"
    and "shiftLength (handleRawMaterialArrival pt s) = shiftLength s"
    and "finishedProducts (handleRawMaterialArrival pt s) = finishedProducts s"
    and "stagesClosed (handleRawMaterialArrival pt s)"
proof -
  define s1 where "s1 = scheduleEvent (currentTime s + generator s 0) ''raw_material_arrival''
       (ArrivalAction pt)
       (s\<lparr>rawMaterialCount := rawMaterialCount s + 1,
          productQueue := productQueue s @ [\<lparr>ptype = pt, intermediateStage = 0\<rparr>],
          cout := cout s @ [RawMaterialArrived pt (currentTime s)],
          generator := (\<lambda>i. generator s (Suc i))\<rparr>)"
  define p where "p = \<lparr>ptype = pt, intermediateStage = 0\<rparr>"
  have unf: "handleRawMaterialArrival pt s = handleNextStage p s1"
    by (simp add: handleRawMaterialArrival_def Let_def s1_def p_def)
  have av: "\<And>r. available s1 r = available s r"
    by (simp add: s1_def available_def scheduleEvent_def)
  have "available s1 (getStageName (intermediateStage p)) \<le> 0"
    using assms by (simp add: av stagesClosed_def)
  note b = handleNextStage_blocked[OF this]
  show "eventQueue (handleRawMaterialArrival pt s) =
           pq_push (newEvent (currentTime s + generator s 0) ''raw_material_arrival''
                      (ArrivalAction pt)) (eventQueue s)"
    unfolding unf b by (simp add: s1_def scheduleEvent_def newEvent_def)
  show "currentTime (handleRawMaterialArrival pt s) = currentTime s"
    unfolding unf b by (simp add: s1_def scheduleEvent_def)
  show "generator (handleRawMaterialArrival pt s) = (\<lambda>i. generator s (Suc i))"
    unfolding unf b by (simp add: s1_def scheduleEvent_def)
  show "cout (handleRawMaterialArrival pt s) = cout s @ [RawMaterialArrived pt (currentTime s)]"
    unfolding unf b by (simp add: s1_def scheduleEvent_def)
  show "resources (handleRawMaterialArrival pt s) = resources s"
    unfolding unf b by (simp add: s1_def scheduleEvent_def)
  show "shiftLength (handleRawMaterialArrival pt s) = shiftLength s"
    unfolding unf b by (simp add: s1_def scheduleEvent_def)
  show "finishedProducts (handleRawMaterialArrival pt s) = finishedProducts s"
    unfolding unf b by (simp add: s1_def scheduleEvent_def)
  have "\<And>r. capacity (handleNextStage p s1) r = capacity s r"
    unfolding capacity_def b by (simp add: s1_def scheduleEvent_def)
  then show "stagesClosed (handleRawMaterialArrival pt s)"
    using assms unfolding unf stagesClosed_def b av by simp
qed

lemma shift_idle:
  assumes "stagesClosed s"
  shows "eventQueue (handleShiftChange s) =
           pq_push (newEvent (currentTime s + real_of_int (shiftLength s)) ''shift_change''
                      ShiftChangeAction) (eventQueue s)"
    and "currentTime (handleShiftChange s) = currentTime s"
    and "generator (handleShiftChange s) = generator s"
    and "cout (handleShiftChange s) = cout s @ [ShiftChangeAt (currentTime s)]"
    and "resources (handleShiftChange s) = resources s"
    and "shiftLength (handleShiftChange s) = shiftLength s"
    and "finishedProducts (handleShiftChange s) = finishedProducts s"
    and "stagesClosed (handleShiftChange s)"
  using assms
  by (simp_all add: handleShiftChange_def Let_def scheduleEvent_def newEvent_def stagesClosed_def
      available_def capacity_def)

lemma idleLine_loopBody:
  assumes "idleLine s" "loopCondition rt s"
  shows "idleLine (loopBody s)" and "finishedProducts (loopBody s) = finishedProducts s"
proof -
  define e where "e = pq_top (eventQueue s)"
  define s1 where "s1 = s\<lparr>eventQueue := pq_pop (eventQueue s), currentTime := time e\<rparr>"
  have unf: "loopBody s = fire (action e) s1"
    by (simp add: loopBody_def Let_def e_def s1_def)
  have ne: "eventQueue s \<noteq> []" using assms(2) by (simp add: loopCondition_def)
  then have "e \<in> set (eventQueue s)" by (simp add: e_def pq_top_def)
  then have ga: "generatorAction (action e)" using assms(1) by (simp add: idleLine_def)
  have sc: "stagesClosed s1" using assms(1)
    by (simp add: idleLine_def stagesClosed_def s1_def available_def capacity_def)
  have hp: "is_heap (eventQueue s1)" using assms(1)
    by (simp add: idleLine_def s1_def pq_pop_heap)
  have gs: "\<forall>x \<in> set (eventQueue s1). generatorAction (action x)"
    using assms(1) set_pq_pop[of "eventQueue s"] by (auto simp: idleLine_def s1_def)
  have fp: "finishedProducts s1 = finishedProducts s" by (simp add: s1_def)
  show "idleLine (loopBody s)"
  proof (cases "action e")
    case (ArrivalAction pt)
    then show ?thesis
      unfolding unf idleLine_def using arrival_idle[OF sc, of pt] hp gs
      by (simp add: pq_push_heap newEvent_def)
  next
    case ShiftChangeAction
    then show ?thesis
      unfolding unf idleLine_def using shift_idle[OF sc] hp gs
      by (simp add: pq_push_heap newEvent_def)
  qed (use ga in simp_all)
  show "finishedProducts (loopBody s) = finishedProducts s"
  proof (cases "action e")
    case (ArrivalAction pt)
    then show ?thesis unfolding unf using arrival_idle[OF sc, of pt] fp by simp
  next
    case ShiftChangeAction
    then show ?thesis unfolding unf using shift_idle[OF sc] fp by simp
  qed (use ga in simp_all)
qed

lemma idleLine_loopStates:
  assumes "idleLine s"
  shows "idleLine (loopStates n rt s) \<and> finishedProducts (loopStates n rt s) = finishedProducts s"
  using assms
proof (induction n arbitrary: s)
  case (Suc n)
  then show ?case using idleLine_loopBody[of s rt] by simp
qed simp

lemma is_heap_Nil [simp]: "is_heap []"
  by (simp add: is_heap_def)

lemma idle_start:
  "idleLine (seedEvents (setResources [''machines'' \<mapsto> m, ''operators'' \<mapsto> k]
      (ManufacturingSystem_init g)))"
proof -
  let ?s = "seedEvents (setResources [''machines'' \<mapsto> m, ''operators'' \<mapsto> k]
      (ManufacturingSystem_init g))"
  have q: "eventQueue ?s =
      pq_push (newEvent 8 ''shift_change'' ShiftChangeAction)
        (pq_push (newEvent (g 0) ''raw_material_arrival'' (ArrivalAction ''ProductA'')) [])"
    by (simp add: seedEvents_def setResources_def ManufacturingSystem_init_def
        scheduleEvent_def Let_def newEvent_def)
  have "stagesClosed ?s"
    by (simp add: stagesClosed_def seedEvents_def setResources_def
        ManufacturingSystem_init_def scheduleEvent_def Let_def available_def capacity_def
        getStageName_def lookup_def)
  moreover have "is_heap (eventQueue ?s)"
    unfolding q by (intro pq_push_heap) simp
  moreover have "\<forall>e \<in> set (eventQueue ?s). generatorAction (action e)"
    unfolding q by (simp add: newEvent_def)
  ultimately show ?thesis by (simp only: idleLine_def simp_thms)
qed

lemma fire_currentTime: "currentTime (fire a s) = currentTime s"
proof -
  have hns: "\<And>p s. currentTime (handleNextStage p s) = currentTime s"
    by (simp add: handleNextStage_def Let_def scheduleEvent_def)
  show ?thesis
    by (cases a)
      (simp_all add: hns handleRawMaterialArrival_def setupDone_def completeStage_def
        handleMaintenance_def handleShiftChange_def Let_def scheduleEvent_def)
qed

lemma handleNextStage_busyTime_later:
  assumes "intermediateStage p \<noteq> 0"
  shows "busyTime (handleNextStage p s) r = busyTime s r"
proof -
  consider (k) "\<not> index_below_size (intermediateStage p) (stageTimes s p)"
    | (w) "index_below_size (intermediateStage p) (stageTimes s p)"
          "available s (getStageName (intermediateStage p)) \<le> 0"
    | (a) "index_below_size (intermediateStage p) (stageTimes s p)"
          "0 < available s (getStageName (intermediateStage p))"
    by linarith
  then show ?thesis
  proof cases
    case k
    then show ?thesis by (simp add: handleNextStage_skip busyTime_def)
  next
    case w
    then show ?thesis by (simp add: handleNextStage_waiting busyTime_def)
  next
    case a
    then show ?thesis using assms by (simp add: handleNextStage_acquire busyTime_def)
  qed
qed

lemma completeStage_busyTime:
  assumes "0 \<le> intermediateStage p"
  shows "busyTime (completeStage p s) r = busyTime s r"
proof -
  have "intermediateStage (p\<lparr>intermediateStage := intermediateStage p + 1\<rparr>) \<noteq> 0"
    using assms by simp
  note handleNextStage_busyTime_later[OF this]
  then show ?thesis
    by (simp add: completeStage_def Let_def) (simp add: busyTime_def)
qed

section \<open>Acquisition of a stage\<close>

text \<open>
  Claim C2. \<^verbatim>\<open>handleNextStage\<close> looks the stage name up in \<open>availableResources\<close> with
  \<^verbatim>\<open>operator[]\<close>. For a name that is not in the map the value read is \<open>0\<close>, the test
  \<^verbatim>\<open>> 0\<close> fails, and the whole effect of the call is: the zero entry is inserted for the
  stage name, the stage's processing time is added to its waiting time (the waiting branch),
  and nothing else happens; the call returns normally. The stage names are never
  among the configured names \<^verbatim>\<open>machines\<close> and \<^verbatim>\<open>operators\<close>, so in every iteration of
  every run of \<^verbatim>\<open>runScenario\<close> each stage name reads \<open>0\<close>.
\<close>

theorem unconfigured_stage_reads_zero_and_waits:
  assumes "availableResources s (getStageName (intermediateStage p)) = None"
    and "index_below_size (intermediateStage p) (stageTimes s p)"
  shows "available s (getStageName (intermediateStage p)) = 0 \<and>
     handleNextStage p s =
       s\<lparr>processingTimes := inserted (processingTimes s) (ptype p) [],
         availableResources := (availableResources s)(getStageName (intermediateStage p) \<mapsto> 0),
         resourceWaitingTime := (resourceWaitingTime s)
           (getStageName (intermediateStage p) \<mapsto>
              waitingTime s (getStageName (intermediateStage p))
                + stageTimes s p ! nat (intermediateStage p))\<rparr> \<and>
     getStageName i \<notin> dom (availableResources
        (setResources [''machines'' \<mapsto> m, ''operators'' \<mapsto> k] (ManufacturingSystem_init g))) \<and>
     available (loopStates n rt (seedEvents
        (setResources [''machines'' \<mapsto> m, ''operators'' \<mapsto> k] (ManufacturingSystem_init g))))
       (getStageName i) = 0"
proof -
  have a0: "available s (getStageName (intermediateStage p)) = 0"
    using assms(1) by (simp add: available_def lookup_def)
  then have "available s (getStageName (intermediateStage p)) \<le> 0" by simp
  note w = handleNextStage_waiting[OF assms(2) this]
  have ins: "inserted (availableResources s) (getStageName (intermediateStage p)) 0 =
      (availableResources s)(getStageName (intermediateStage p) \<mapsto> 0)"
    using assms(1) by (simp add: inserted_def)
  have d: "getStageName i \<notin> dom (availableResources
        (setResources [''machines'' \<mapsto> m, ''operators'' \<mapsto> k] (ManufacturingSystem_init g)))"
    by (simp add: setResources_def getStageName_not_configured)
  have "idleLine (loopStates n rt (seedEvents
        (setResources [''machines'' \<mapsto> m, ''operators'' \<mapsto> k] (ManufacturingSystem_init g))))"
    using idleLine_loopStates[OF idle_start] by simp
  then have r: "available (loopStates n rt (seedEvents
        (setResources [''machines'' \<mapsto> m, ''operators'' \<mapsto> k] (ManufacturingSystem_init g))))
       (getStageName i) = 0"
    by (simp add: idleLine_def stagesClosed_def)
  show ?thesis using a0 w d r unfolding ins by simp
qed

theorem unconfigured_stage_witness:
  "availableResources (ManufacturingSystem_init (samplesFrom [] 1))
      (getStageName (intermediateStage \<lparr>ptype = ''ProductA'', intermediateStage = 0\<rparr>)) = None \<and>
   index_below_size (intermediateStage \<lparr>ptype = ''ProductA'', intermediateStage = 0\<rparr>)
      (stageTimes (ManufacturingSystem_init (samplesFrom [] 1))
         \<lparr>ptype = ''ProductA'', intermediateStage = 0\<rparr>) \<and>
   availableResources (handleNextStage \<lparr>ptype = ''ProductA'', intermediateStage = 0\<rparr>
      (ManufacturingSystem_init (samplesFrom [] 1))) ''machining'' = Some 0 \<and>
   waitingTime (handleNextStage \<lparr>ptype = ''ProductA'', intermediateStage = 0\<rparr>
      (ManufacturingSystem_init (samplesFrom [] 1))) ''machining'' = 2 \<and>
   eventQueue (handleNextStage \<lparr>ptype = ''ProductA'', intermediateStage = 0\<rparr>
      (ManufacturingSystem_init (samplesFrom [] 1))) = []"
proof -
  let ?s = "ManufacturingSystem_init (samplesFrom [] 1)"
  let ?p = "\<lparr>ptype = ''ProductA'', intermediateStage = 0\<rparr>"
  have h1: "availableResources ?s (getStageName (intermediateStage ?p)) = None"
    by (simp add: ManufacturingSystem_init_def getStageName_def)
  have h2: "index_below_size (intermediateStage ?p) (stageTimes ?s ?p)"
    by (simp add: ManufacturingSystem_init_def index_below_size_def stageTimes_def lookup_def)
  have st: "stageTimes ?s ?p = [2, 3 / 2, 1, 1]"
    by (simp add: ManufacturingSystem_init_def stageTimes_def lookup_def)
  have e: "eventQueue ?s = []" "waitingTime ?s ''machining'' = 0"
    by (simp_all add: ManufacturingSystem_init_def waitingTime_def lookup_def)
  from unconfigured_stage_reads_zero_and_waits[OF h1 h2]
  have "handleNextStage ?p ?s =
       ?s\<lparr>processingTimes := inserted (processingTimes ?s) (ptype ?p) [],
         availableResources := (availableResources ?s)(getStageName (intermediateStage ?p) \<mapsto> 0),
         resourceWaitingTime := (resourceWaitingTime ?s)
           (getStageName (intermediateStage ?p) \<mapsto>
              waitingTime ?s (getStageName (intermediateStage ?p))
                + stageTimes ?s ?p ! nat (intermediateStage ?p))\<rparr>"
    by blast
  then show ?thesis
    using h1 h2 st e by (simp add: getStageName_def waitingTime_def)
qed

text \<open>
  Claim C7. When a unit acquires its stage, the setup time is the configured one at stage
  index \<open>0\<close> and \<open>0\<close> at every other index; it is added to the busy time of the stage in
  the call that schedules the \<^verbatim>\<open>"setup"\<close> event for \<open>currentTime + setupTime\<close>. When that
  event fires, the processing time is added to the busy time in the step that schedules the
  completion event for \<open>currentTime + processTime\<close>. When the completion event fires, no busy
  time changes.
\<close>

theorem setup_only_at_stage_zero_and_busy_time_at_scheduling:
  assumes "index_below_size (intermediateStage p) (stageTimes s p)"
    and "0 < available s (getStageName (intermediateStage p))"
  shows "busyTime (handleNextStage p s) (getStageName (intermediateStage p)) =
           busyTime s (getStageName (intermediateStage p)) +
             (if intermediateStage p = 0 then lookup (machineSetupTimes s) (ptype p) 0 else 0) \<and>
         mset (eventQueue (handleNextStage p s)) =
           add_mset
             (newEvent
                (currentTime s +
                   (if intermediateStage p = 0 then lookup (machineSetupTimes s) (ptype p) 0 else 0))
                ''setup''
                (SetupAction p (stageTimes s p ! nat (intermediateStage p))
                   (getStageName (intermediateStage p))))
             (mset (eventQueue s)) \<and>
         busyTime (fire (SetupAction p processTime stage) s') stage =
           busyTime s' stage + processTime \<and>
         mset (eventQueue (fire (SetupAction p processTime stage) s')) =
           add_mset (newEvent (currentTime s' + processTime) stage (CompleteAction p))
             (mset (eventQueue s')) \<and>
         busyTime (fire (CompleteAction p) s'') r = busyTime s'' r"
proof -
  have nn: "0 \<le> intermediateStage p" using assms(1) by (simp add: index_below_size_def)
  have a: "busyTime (handleNextStage p s) (getStageName (intermediateStage p)) =
           busyTime s (getStageName (intermediateStage p)) +
             (if intermediateStage p = 0 then lookup (machineSetupTimes s) (ptype p) 0 else 0)"
    by (simp add: handleNextStage_acquire[OF assms] busyTime_def)
  have b: "mset (eventQueue (handleNextStage p s)) =
           add_mset
             (newEvent
                (currentTime s +
                   (if intermediateStage p = 0 then lookup (machineSetupTimes s) (ptype p) 0 else 0))
                ''setup''
                (SetupAction p (stageTimes s p ! nat (intermediateStage p))
                   (getStageName (intermediateStage p))))
             (mset (eventQueue s))"
    by (simp add: handleNextStage_acquire[OF assms] pq_push_mset)
  have c: "busyTime (fire (SetupAction p processTime stage) s') stage =
           busyTime s' stage + processTime"
    by (simp add: setupDone_def Let_def scheduleEvent_def busyTime_def)
  have d: "mset (eventQueue (fire (SetupAction p processTime stage) s')) =
           add_mset (newEvent (currentTime s' + processTime) stage (CompleteAction p))
             (mset (eventQueue s'))"
    by (simp add: setupDone_def Let_def scheduleEvent_def pq_push_mset newEvent_def)
  have e: "busyTime (fire (CompleteAction p) s'') r = busyTime s'' r"
    using completeStage_busyTime[OF nn] by simp
  show ?thesis using a b c d e by blast
qed


theorem setup_and_busy_time_witness:
  "index_below_size (intermediateStage \<lparr>ptype = ''ProductA'', intermediateStage = 0\<rparr>)
      (stageTimes (setResources [''machining'' \<mapsto> 1] (ManufacturingSystem_init (samplesFrom [] 1)))
         \<lparr>ptype = ''ProductA'', intermediateStage = 0\<rparr>) \<and>
   0 < available (setResources [''machining'' \<mapsto> 1] (ManufacturingSystem_init (samplesFrom [] 1)))
      (getStageName (intermediateStage \<lparr>ptype = ''ProductA'', intermediateStage = 0\<rparr>)) \<and>
   busyTime (handleNextStage \<lparr>ptype = ''ProductA'', intermediateStage = 0\<rparr>
      (setResources [''machining'' \<mapsto> 1] (ManufacturingSystem_init (samplesFrom [] 1))))
      ''machining'' = 1 / 2 \<and>
   mset (eventQueue (handleNextStage \<lparr>ptype = ''ProductA'', intermediateStage = 0\<rparr>
      (setResources [''machining'' \<mapsto> 1] (ManufacturingSystem_init (samplesFrom [] 1))))) =
     {#newEvent (1 / 2) ''setup''
         (SetupAction \<lparr>ptype = ''ProductA'', intermediateStage = 0\<rparr> 2 ''machining'')#}"
proof -
  let ?s = "setResources [''machining'' \<mapsto> 1] (ManufacturingSystem_init (samplesFrom [] 1))"
  let ?p = "\<lparr>ptype = ''ProductA'', intermediateStage = 0\<rparr>"
  have st: "stageTimes ?s ?p = [2, 3 / 2, 1, 1]"
    by (simp add: ManufacturingSystem_init_def stageTimes_def lookup_def setResources_def)
  have h1: "index_below_size (intermediateStage ?p) (stageTimes ?s ?p)"
    unfolding st by (simp add: index_below_size_def)
  have h2: "0 < available ?s (getStageName (intermediateStage ?p))"
    by (simp add: ManufacturingSystem_init_def available_def lookup_def setResources_def
        getStageName_def)
  have v: "busyTime ?s ''machining'' = 0" "lookup (machineSetupTimes ?s) ''ProductA'' 0 = 1 / 2"
    "currentTime ?s = 0" "eventQueue ?s = []"
    by (simp_all add: ManufacturingSystem_init_def busyTime_def lookup_def setResources_def)
  from setup_only_at_stage_zero_and_busy_time_at_scheduling[OF h1 h2]
  show ?thesis using h1 h2 st v by (simp add: getStageName_def)
qed

section \<open>Runs of the scenario driver\<close>

lemma shiftTimes_append [simp]: "shiftTimes (xs @ ys) = shiftTimes xs @ shiftTimes ys"
  by (induction xs rule: shiftTimes.induct) simp_all

lemma idleAt_top:
  assumes "idleAt s g i t"
  shows "(pq_top (eventQueue s) =
            newEvent (arrivalTime g i) ''raw_material_arrival'' (ArrivalAction ''ProductA'')
          \<and> arrivalTime g i \<le> t
          \<and> mset (pq_pop (eventQueue s)) = {#newEvent t ''shift_change'' ShiftChangeAction#})
       \<or> (pq_top (eventQueue s) = newEvent t ''shift_change'' ShiftChangeAction
          \<and> t \<le> arrivalTime g i
          \<and> mset (pq_pop (eventQueue s)) =
              {#newEvent (arrivalTime g i) ''raw_material_arrival'' (ArrivalAction ''ProductA'')#})"
proof -
  let ?a = "newEvent (arrivalTime g i) ''raw_material_arrival'' (ArrivalAction ''ProductA'')"
  let ?b = "newEvent t ''shift_change'' ShiftChangeAction"
  let ?q = "eventQueue s"
  have ms: "mset ?q = {#?a, ?b#}" and hp: "is_heap ?q"
    using assms by (simp_all add: idleAt_def idleLine_def)
  have ne: "?q \<noteq> []" using ms by auto
  have st: "set ?q = {?a, ?b}" using ms by (metis set_mset_mset set_mset_add_mset_insert set_mset_empty)
  have top_in: "pq_top ?q \<in> set ?q" using ne by (simp add: pq_top_def)
  have pm: "add_mset (pq_top ?q) (mset (pq_pop ?q)) = {#?a, ?b#}"
    using pq_pop_mset[OF hp ne] ms by simp
  have ab: "?a \<noteq> ?b" by (simp add: newEvent_def)
  from top_in st consider "pq_top ?q = ?a" | "pq_top ?q = ?b" by auto
  then show ?thesis
  proof cases
    case 1
    have "time ?a \<le> time ?b" using pq_top_least[OF hp, of ?b] st 1 by simp
    then have "arrivalTime g i \<le> t" by (simp add: newEvent_def)
    moreover have "mset (pq_pop ?q) = {#?b#}" using pm 1 by simp
    ultimately show ?thesis using 1 by simp
  next
    case 2
    have "time ?b \<le> time ?a" using pq_top_least[OF hp, of ?a] st 2 by simp
    then have "t \<le> arrivalTime g i" by (simp add: newEvent_def)
    moreover have "mset (pq_pop ?q) = {#?a#}"
      using pm 2 by (simp add: add_mset_commute)
    ultimately show ?thesis using 2 by simp
  qed
qed

lemma idleAt_loopBody:
  assumes J: "idleAt s g i t" and c: "loopCondition rt s"
  shows "(arrivalTime g i \<le> t \<and> idleAt (loopBody s) g (Suc i) t \<and>
          currentTime (loopBody s) = arrivalTime g i \<and>
          shiftTimes (cout (loopBody s)) = shiftTimes (cout s))
       \<or> (t \<le> arrivalTime g i \<and> idleAt (loopBody s) g i (t + 8) \<and>
          currentTime (loopBody s) = t \<and>
          shiftTimes (cout (loopBody s)) = shiftTimes (cout s) @ [t])"
proof -
  let ?a = "newEvent (arrivalTime g i) ''raw_material_arrival'' (ArrivalAction ''ProductA'')"
  let ?b = "newEvent t ''shift_change'' ShiftChangeAction"
  define e where "e = pq_top (eventQueue s)"
  define s1 where "s1 = s\<lparr>eventQueue := pq_pop (eventQueue s), currentTime := time e\<rparr>"
  have unf: "loopBody s = fire (action e) s1"
    by (simp add: loopBody_def Let_def e_def s1_def)
  have idle: "idleLine s" using J by (simp add: idleAt_def)
  have idle': "idleLine (loopBody s)" by (rule idleLine_loopBody[OF idle c])
  have sc: "stagesClosed s1" using idle
    by (simp add: idleLine_def stagesClosed_def s1_def available_def capacity_def)
  have sl: "shiftLength s1 = 8" and gen: "generator s1 = (\<lambda>j. g (Suc i + j))"
    using J by (simp_all add: idleAt_def s1_def)
  from idleAt_top[OF J] show ?thesis
  proof (elim disjE conjE)
    assume top: "pq_top (eventQueue s) = ?a" and le: "arrivalTime g i \<le> t"
      and pm: "mset (pq_pop (eventQueue s)) = {#?b#}"
    have ae: "action e = ArrivalAction ''ProductA''" "time e = arrivalTime g i"
      using top by (simp_all add: e_def newEvent_def)
    note ar = arrival_idle[OF sc, of "''ProductA''"]
    have q: "mset (eventQueue (loopBody s)) =
        {#newEvent (arrivalTime g (Suc i)) ''raw_material_arrival'' (ArrivalAction ''ProductA''), ?b#}"
      unfolding unf ae fire.simps ar using pm gen
      by (simp add: pq_push_mset s1_def ae)
    have "idleAt (loopBody s) g (Suc i) t"
      unfolding idleAt_def using idle' q
      by (simp add: unf ae ar sl gen)
    moreover have "currentTime (loopBody s) = arrivalTime g i"
      by (simp add: unf ae ar) (simp add: s1_def ae)
    moreover have "shiftTimes (cout (loopBody s)) = shiftTimes (cout s)"
      by (simp add: unf ae ar) (simp add: s1_def)
    ultimately show ?thesis using le by blast
  next
    assume top: "pq_top (eventQueue s) = ?b" and le: "t \<le> arrivalTime g i"
      and pm: "mset (pq_pop (eventQueue s)) = {#?a#}"
    have ae: "action e = ShiftChangeAction" "time e = t"
      using top by (simp_all add: e_def newEvent_def)
    note sh = shift_idle[OF sc]
    have q: "mset (eventQueue (loopBody s)) = {#?a, newEvent (t + 8) ''shift_change'' ShiftChangeAction#}"
      unfolding unf ae fire.simps sh using pm sl
      by (simp add: pq_push_mset s1_def ae add_mset_commute)
    have "idleAt (loopBody s) g i (t + 8)"
      unfolding idleAt_def using idle' q
      by (simp add: unf ae sh sl gen)
    moreover have "currentTime (loopBody s) = t"
      by (simp add: unf ae sh) (simp add: s1_def ae)
    moreover have "shiftTimes (cout (loopBody s)) = shiftTimes (cout s) @ [t]"
      by (simp add: unf ae sh) (simp add: s1_def ae)
    ultimately show ?thesis using le by blast
  qed
qed

lemma idle_run:
  assumes K1: "rt < arrivalTime g K" and K2: "\<forall>k<K. arrivalTime g k < rt"
    and rt: "rt = 8 * real M"
  shows "idleAt s g i (8 * real m) \<Longrightarrow> i \<le> K \<Longrightarrow> 1 \<le> m \<Longrightarrow> m \<le> M \<Longrightarrow> currentTime s < rt \<Longrightarrow>
      \<exists>s'. eventLoop rt s = Some s' \<and>
        shiftTimes (cout s') = shiftTimes (cout s) @ map (\<lambda>j. 8 * real j) [m..<Suc M] \<and>
        currentTime s' = rt \<and> finishedProducts s' = finishedProducts s \<and> idleLine s'"
proof (induction "(K - i) + (M - m)" arbitrary: s i m rule: less_induct)
  case less
  let ?t = "8 * real m"
  have J: "idleAt s g i ?t" by fact
  have "mset (eventQueue s) \<noteq> {#}" using J by (simp add: idleAt_def)
  then have c: "loopCondition rt s" using less.prems(5) by (auto simp: loopCondition_def)
  have step: "eventLoop rt s = eventLoop rt (loopBody s)" by (rule eventLoop_step[OF c])
  have idle: "idleLine s" using J by (simp add: idleAt_def)
  have fp: "finishedProducts (loopBody s) = finishedProducts s"
    by (rule idleLine_loopBody(2)[OF idle c])
  have tle: "?t \<le> rt" using less.prems(4) by (simp add: rt)
  from idleAt_loopBody[OF J c] show ?case
  proof (elim disjE conjE)
    assume le: "arrivalTime g i \<le> ?t" and J2: "idleAt (loopBody s) g (Suc i) ?t"
      and ct: "currentTime (loopBody s) = arrivalTime g i"
      and sh: "shiftTimes (cout (loopBody s)) = shiftTimes (cout s)"
    have "i \<noteq> K" using le tle K1 by auto
    then have iK: "i < K" using less.prems(2) by simp
    then have "arrivalTime g i < rt" using K2 by simp
    then have c2: "currentTime (loopBody s) < rt" using ct by simp
    have "(K - Suc i) + (M - m) < (K - i) + (M - m)" using iK by simp
    from less.hyps[OF this J2 _ less.prems(3,4) c2] iK
    obtain s' where "eventLoop rt (loopBody s) = Some s'"
      "shiftTimes (cout s') = shiftTimes (cout (loopBody s)) @ map (\<lambda>j. 8 * real j) [m..<Suc M]"
      "currentTime s' = rt" "finishedProducts s' = finishedProducts (loopBody s)" "idleLine s'"
      by auto
    then show ?thesis using step sh fp by simp
  next
    assume le: "?t \<le> arrivalTime g i" and J2: "idleAt (loopBody s) g i (?t + 8)"
      and ct: "currentTime (loopBody s) = ?t"
      and sh: "shiftTimes (cout (loopBody s)) = shiftTimes (cout s) @ [?t]"
    show ?thesis
    proof (cases "m = M")
      case True
      then have "\<not> loopCondition rt (loopBody s)" using ct by (simp add: loopCondition_def rt)
      then have "eventLoop rt s = Some (loopBody s)" using step by (simp add: eventLoop_stop)
      moreover have "idleLine (loopBody s)" using J2 by (simp add: idleAt_def)
      ultimately show ?thesis using sh fp ct True by (simp add: rt)
    next
      case False
      then have mM: "m < M" using less.prems(4) by simp
      have t8: "?t + 8 = 8 * real (Suc m)" by simp
      have c2: "currentTime (loopBody s) < rt" using ct mM by (simp add: rt)
      have "(K - i) + (M - Suc m) < (K - i) + (M - m)" using mM by simp
      from less.hyps[OF this J2[unfolded t8] less.prems(2) _ _ c2] mM
      obtain s' where "eventLoop rt (loopBody s) = Some s'"
        "shiftTimes (cout s') = shiftTimes (cout (loopBody s)) @ map (\<lambda>j. 8 * real j) [Suc m..<Suc M]"
        "currentTime s' = rt" "finishedProducts s' = finishedProducts (loopBody s)" "idleLine s'"
        by auto
      moreover have "[m..<Suc M] = m # [Suc m..<Suc M]" using mM by (simp add: upt_conv_Cons)
      ultimately show ?thesis using step sh fp by simp
    qed
  qed
qed

lemma idleAt_start:
  "idleAt (seedEvents (setResources [''machines'' \<mapsto> m, ''operators'' \<mapsto> k]
      (ManufacturingSystem_init g))) g 0 8"
  unfolding idleAt_def
proof (intro conjI)
  let ?s = "seedEvents (setResources [''machines'' \<mapsto> m, ''operators'' \<mapsto> k]
      (ManufacturingSystem_init g))"
  show "idleLine ?s" by (rule idle_start)
  show "shiftLength ?s = 8" "generator ?s = (\<lambda>j. g (Suc 0 + j))"
    by (simp_all add: seedEvents_def setResources_def ManufacturingSystem_init_def
        scheduleEvent_def Let_def)
  show "mset (eventQueue ?s) =
        {#newEvent (arrivalTime g 0) ''raw_material_arrival'' (ArrivalAction ''ProductA''),
          newEvent 8 ''shift_change'' ShiftChangeAction#}"
    by (simp add: seedEvents_def setResources_def ManufacturingSystem_init_def
        scheduleEvent_def Let_def pq_push_mset newEvent_def)
qed

lemma runScenario_returns:
  assumes "rt < arrivalTime g K" and "\<forall>k<K. arrivalTime g k < rt"
    and "rt = 8 * real M" and "1 \<le> M"
  shows "\<exists>s'. runScenario pt m k rt g = Some s' \<and>
        shiftTimes (cout s') = map (\<lambda>j. 8 * real j) [1..<Suc M] \<and>
        currentTime s' = rt \<and> finishedProducts s' = 0"
proof -
  let ?s = "seedEvents (setResources [''machines'' \<mapsto> m, ''operators'' \<mapsto> k]
      (ManufacturingSystem_init g))"
  have J: "idleAt ?s g 0 (8 * real (1::nat))" using idleAt_start[of m k g] by simp
  have c: "currentTime ?s < rt" using assms(3,4)
    by (simp add: seedEvents_def setResources_def ManufacturingSystem_init_def
        scheduleEvent_def Let_def)
  have z: "finishedProducts ?s = 0" "cout ?s = []"
    by (simp_all add: seedEvents_def setResources_def ManufacturingSystem_init_def
        scheduleEvent_def Let_def)
  from idle_run[OF assms(1,2,3) J _ _ assms(4) c]
  show ?thesis unfolding runScenario_def runSimulation_def z by auto
qed

section \<open>The scenario of the driver\<close>

text \<open>
  Claim C1 asks for a positive finished count after the scenario with ten machines, five
  operators and the run bound \<open>1000\<close>. The program does the opposite, whatever the seed:
  the stages are looked up under their own names, which are never configured, so no unit
  ever starts a stage and every run that returns has finished no product.
\<close>

theorem scenario_finishes_no_product:
  assumes "runScenario ''ProductA'' 10 5 1000 g = Some s'"
  shows "finishedProducts s' = 0"
proof -
  let ?s = "seedEvents (setResources [''machines'' \<mapsto> 10, ''operators'' \<mapsto> 5]
      (ManufacturingSystem_init g))"
  have "eventLoop 1000 ?s = Some s'"
    using assms by (simp add: runScenario_def runSimulation_def)
  then obtain n where "s' = loopStates n 1000 ?s" using eventLoop_Some by blast
  moreover have "finishedProducts (loopStates n 1000 ?s) = finishedProducts ?s"
    using idleLine_loopStates[OF idle_start] by simp
  moreover have "finishedProducts ?s = 0"
    by (simp add: seedEvents_def setResources_def ManufacturingSystem_init_def
        scheduleEvent_def Let_def)
  ultimately show ?thesis by simp
qed

theorem scenario_witness:
  "\<exists>s'. runScenario ''ProductA'' 10 5 1000 (samplesFrom [] 300) = Some s' \<and>
     finishedProducts s' = 0 \<and> currentTime s' = 1000"
proof -
  have v: "arrivalTime (samplesFrom [] 300) 0 = 300" "arrivalTime (samplesFrom [] 300) 1 = 600"
    "arrivalTime (samplesFrom [] 300) 2 = 900" "arrivalTime (samplesFrom [] 300) 3 = 1200"
    by (simp_all add: numeral_eq_Suc samplesFrom_def)
  have h1: "1000 < arrivalTime (samplesFrom [] 300) 3" by (simp add: v)
  have h2: "\<forall>k<3. arrivalTime (samplesFrom [] 300) k < 1000"
  proof (intro allI impI)
    fix k :: nat assume "k < 3"
    then consider "k = 0" | "k = 1" | "k = 2" by linarith
    then show "arrivalTime (samplesFrom [] 300) k < 1000" by cases (simp_all add: v samplesFrom_def)
  qed
  have "(1000::real) = 8 * real (125::nat)" by simp
  from runScenario_returns[OF h1 h2 this, of "''ProductA''" 10 5]
  obtain s' where r: "runScenario ''ProductA'' 10 5 1000 (samplesFrom [] 300) = Some s'"
    and t: "currentTime s' = 1000"
    by auto
  from scenario_finishes_no_product[OF r] r t show ?thesis by blast
qed

section \<open>Resource accounting\<close>

lemma handleNextStage_cases:
  obtains (skip) "\<not> index_below_size (intermediateStage p) (stageTimes s p)"
  | (wait) "index_below_size (intermediateStage p) (stageTimes s p)"
          "available s (getStageName (intermediateStage p)) \<le> 0"
  | (acquire) "index_below_size (intermediateStage p) (stageTimes s p)"
          "0 < available s (getStageName (intermediateStage p))"
  by linarith

lemma handleNextStage_resources: "resources (handleNextStage p s) = resources s"
  by (cases rule: handleNextStage_cases[of p s])
    (simp_all add: handleNextStage_skip handleNextStage_waiting handleNextStage_acquire)

lemma handleNextStage_available_bounds:
  assumes "\<forall>r. 0 \<le> available s r"
  shows "0 \<le> available (handleNextStage p s) r \<and> available (handleNextStage p s) r \<le> available s r"
proof (cases rule: handleNextStage_cases[of p s])
  case skip
  then show ?thesis using assms by (simp add: handleNextStage_skip available_def)
next
  case wait
  then show ?thesis using assms by (simp add: handleNextStage_waiting available_def)
next
  case acquire
  then show ?thesis using assms by (simp add: handleNextStage_acquire available_def)
qed

lemma fire_bounds:
  assumes c: "\<forall>r. 0 \<le> capacity s r \<and> capacity s r \<le> u"
    and a: "\<forall>r. 0 \<le> available s r \<and> available s r \<le> u"
  shows "resources (fire a s) = resources s \<and>
     (\<forall>r. 0 \<le> available (fire a s) r \<and> available (fire a s) r \<le> u + 1)"
proof (cases a)
  case (ArrivalAction pt)
  define s1 where "s1 = scheduleEvent (currentTime s + generator s 0) ''raw_material_arrival''
       (ArrivalAction pt)
       (s\<lparr>rawMaterialCount := rawMaterialCount s + 1,
          productQueue := productQueue s @ [\<lparr>ptype = pt, intermediateStage = 0\<rparr>],
          cout := cout s @ [RawMaterialArrived pt (currentTime s)],
          generator := (\<lambda>i. generator s (Suc i))\<rparr>)"
  have unf: "fire a s = handleNextStage \<lparr>ptype = pt, intermediateStage = 0\<rparr> s1"
    by (simp add: ArrivalAction handleRawMaterialArrival_def Let_def s1_def)
  have a1: "\<And>r. available s1 r = available s r" and r1: "resources s1 = resources s"
    by (simp_all add: s1_def available_def scheduleEvent_def)
  have n1: "\<forall>r. 0 \<le> available s1 r" using a by (simp add: a1)
  have "0 \<le> available (fire a s) r \<and> available (fire a s) r \<le> u + 1" for r
    using handleNextStage_available_bounds[OF n1, of "\<lparr>ptype = pt, intermediateStage = 0\<rparr>" r]
      a[THEN spec, of r]
    unfolding unf a1 by linarith
  then show ?thesis by (simp add: unf handleNextStage_resources r1)
next
  case (SetupAction p pt st)
  have "\<And>r. available (fire a s) r = available s r" "resources (fire a s) = resources s"
    by (simp_all add: SetupAction setupDone_def Let_def scheduleEvent_def available_def)
  moreover have "0 \<le> available s r \<and> available s r \<le> u + 1" for r
    using a[THEN spec, of r] by linarith
  ultimately show ?thesis by simp
next
  case (CompleteAction p)
  define st where "st = getStageName (intermediateStage p)"
  define s1 where "s1 = s\<lparr>cout := cout s @ [StageCompleted st (ptype p) (currentTime s)],
       availableResources := (availableResources s)(st \<mapsto> available s st + 1),
       processingTimes := inserted (processingTimes s) (ptype p) []\<rparr>"
  define p1 where "p1 = p\<lparr>intermediateStage := intermediateStage p + 1\<rparr>"
  have a1: "\<And>r. available s1 r = (if r = st then available s st + 1 else available s r)"
    by (simp add: s1_def available_def)
  have b1: "0 \<le> available s1 r \<and> available s1 r \<le> u + 1" for r
    using a[THEN spec, of r] a[THEN spec, of st] unfolding a1 by (simp split: if_splits)
  have r1: "resources s1 = resources s" by (simp add: s1_def)
  have unf: "fire a s =
      (if \<not> index_below_size (intermediateStage p1) (stageTimes s p1)
       then s1\<lparr>finishedProducts := finishedProducts s1 + 1,
              finishedProductsPerType := (finishedProductsPerType s1)
                (ptype p1 \<mapsto> lookup (finishedProductsPerType s1) (ptype p1) 0 + 1)\<rparr>
       else handleNextStage p1 s1)"
    by (simp add: CompleteAction completeStage_def Let_def s1_def p1_def st_def available_def
        stageTimes_def)
  show ?thesis
  proof (cases "index_below_size (intermediateStage p1) (stageTimes s p1)")
    case True
    have n1: "\<forall>r. 0 \<le> available s1 r" using b1 by simp
    have "0 \<le> available (fire a s) r \<and> available (fire a s) r \<le> u + 1" for r
      using handleNextStage_available_bounds[OF n1, of p1 r] b1[of r] True
      by (simp add: unf)
    then show ?thesis using True by (simp add: unf handleNextStage_resources r1)
  next
    case False
    have "available (fire a s) r = available s1 r" for r
      using False by (simp add: unf available_def)
    then show ?thesis using b1 False by (simp add: unf r1)
  qed
next
  case (MaintenanceAction r')
  have a1: "\<And>r. available (fire a s) r = (if r = r' then available s r' + 1 else available s r)"
    by (simp add: MaintenanceAction handleMaintenance_def Let_def available_def)
  have "0 \<le> available (fire a s) r \<and> available (fire a s) r \<le> u + 1" for r
    using a[THEN spec, of r] a[THEN spec, of r'] unfolding a1 by (simp split: if_splits)
  then show ?thesis by (simp add: MaintenanceAction handleMaintenance_def Let_def)
next
  case ShiftChangeAction
  have "\<And>r. available (fire a s) r = capacity s r" "resources (fire a s) = resources s"
    by (simp_all add: ShiftChangeAction handleShiftChange_def Let_def scheduleEvent_def
        available_def capacity_def)
  moreover have "0 \<le> capacity s r \<and> capacity s r \<le> u + 1" for r
    using c[THEN spec, of r] by linarith
  ultimately show ?thesis by simp
qed

lemma loopStates_bounds:
  "(\<forall>r. 0 \<le> capacity s r \<and> capacity s r \<le> u) \<Longrightarrow>
   (\<forall>r. 0 \<le> available s r \<and> available s r \<le> u) \<Longrightarrow>
   (\<forall>r. 0 \<le> capacity (loopStates k rt s) r \<and> capacity (loopStates k rt s) r \<le> u + int k) \<and>
   (\<forall>r. 0 \<le> available (loopStates k rt s) r \<and> available (loopStates k rt s) r \<le> u + int k)"
proof (induction k arbitrary: s u)
  case 0
  then show ?case by simp
next
  case (Suc k)
  show ?case
  proof (cases "loopCondition rt s")
    case False
    have "0 \<le> capacity s r \<and> capacity s r \<le> u + int (Suc k)"
      "0 \<le> available s r \<and> available s r \<le> u + int (Suc k)" for r
      using Suc.prems(1)[THEN spec, of r] Suc.prems(2)[THEN spec, of r] by simp_all
    then show ?thesis using False by (simp only: loopStates.simps if_False) blast
  next
    case True
    define s1 where "s1 = s\<lparr>eventQueue := pq_pop (eventQueue s),
        currentTime := time (pq_top (eventQueue s))\<rparr>"
    have lb: "loopBody s = fire (action (pq_top (eventQueue s))) s1"
      by (simp add: loopBody_def Let_def s1_def)
    have c1: "\<forall>r. 0 \<le> capacity s1 r \<and> capacity s1 r \<le> u"
      and a1: "\<forall>r. 0 \<le> available s1 r \<and> available s1 r \<le> u"
      using Suc.prems by (simp_all add: s1_def capacity_def available_def)
    from fire_bounds[OF c1 a1, of "action (pq_top (eventQueue s))"]
    have r2: "resources (loopBody s) = resources s1"
      and a2: "\<forall>r. 0 \<le> available (loopBody s) r \<and> available (loopBody s) r \<le> u + 1"
      unfolding lb by blast+
    have "0 \<le> capacity (loopBody s) r \<and> capacity (loopBody s) r \<le> u + 1" for r
      using c1[THEN spec, of r] r2 by (simp add: capacity_def)
    then have c2: "\<forall>r. 0 \<le> capacity (loopBody s) r \<and> capacity (loopBody s) r \<le> u + 1"
      by blast
    have e: "u + 1 + int k = u + int (Suc k)" by simp
    from Suc.IH[OF c2 a2] True show ?thesis
      unfolding e by simp
  qed
qed

text \<open>
  Claim C3, as amended. Take a run and a number \<open>n\<close> of iterations of the loop, and let
  every capacity and every available count at the start lie between \<open>0\<close> and
  \<open>2147483647 - n\<close>. Then after each of the first \<open>n\<close> iterations every available count
  is non-negative and at most \<open>2147483647\<close>, whatever the events are: acquisitions, stage
  completions, shift changes and maintenance completions. (An acquisition decrements only a
  positive count; a completion and a maintenance add one; a shift change restores the
  capacities. An iteration adds at most one to a count, so on these runs no count leaves
  the range of the 32-bit \<^verbatim>\<open>int\<close> of the source.) Nothing keeps a count below its
  capacity.
\<close>

theorem available_never_negative:
  assumes "\<forall>r. 0 \<le> capacity s r \<and> capacity s r + int n \<le> 2147483647"
    and "\<forall>r. 0 \<le> available s r \<and> available s r + int n \<le> 2147483647"
    and "k \<le> n"
  shows "0 \<le> available (loopStates k rt s) r \<and> available (loopStates k rt s) r \<le> 2147483647"
proof -
  have "0 \<le> capacity s r \<and> capacity s r \<le> 2147483647 - int n"
    "0 \<le> available s r \<and> available s r \<le> 2147483647 - int n" for r
    using assms(1)[THEN spec, of r] assms(2)[THEN spec, of r] by simp_all
  then have c: "\<forall>r. 0 \<le> capacity s r \<and> capacity s r \<le> 2147483647 - int n"
    and a: "\<forall>r. 0 \<le> available s r \<and> available s r \<le> 2147483647 - int n"
    by blast+
  from loopStates_bounds[OF c a, of k rt]
  have "0 \<le> available (loopStates k rt s) r \<and>
        available (loopStates k rt s) r \<le> 2147483647 - int n + int k"
    by blast
  then show ?thesis using assms(3) by simp
qed

theorem available_never_negative_witness:
  "0 \<le> available (loopStates 4 20 (seedEvents (setResources [''machining'' \<mapsto> 1]
       (ManufacturingSystem_init (samplesFrom [] 7))))) ''machining'' \<and>
   available (loopStates 4 20 (seedEvents (setResources [''machining'' \<mapsto> 1]
       (ManufacturingSystem_init (samplesFrom [] 7))))) ''machining'' \<le> 2147483647"
proof -
  let ?s = "seedEvents (setResources [''machining'' \<mapsto> 1]
       (ManufacturingSystem_init (samplesFrom [] 7)))"
  have h1: "\<forall>r. 0 \<le> capacity ?s r \<and> capacity ?s r + int 4 \<le> 2147483647"
    by (simp add: capacity_def seedEvents_def setResources_def ManufacturingSystem_init_def
        scheduleEvent_def Let_def lookup_def)
  have h2: "\<forall>r. 0 \<le> available ?s r \<and> available ?s r + int 4 \<le> 2147483647"
    by (simp add: available_def seedEvents_def setResources_def ManufacturingSystem_init_def
        scheduleEvent_def Let_def lookup_def)
  show ?thesis by (rule available_never_negative[OF h1 h2]) simp
qed

text \<open>
  Claim C3 as stated fails in its upper bound. With one unit of \<^verbatim>\<open>machining\<close> configured,
  a unit arrives at \<open>7\<close> and takes it, the shift change of \<open>8\<close> restores the count to
  \<open>1\<close>, and the completion of the stage at \<open>9.5\<close> increments it to \<open>2\<close>.
\<close>

theorem available_exceeds_capacity_counterexample:
  "capacity (loopStates 4 20 (seedEvents (setResources [''machining'' \<mapsto> 1]
       (ManufacturingSystem_init (samplesFrom [] 7))))) ''machining'' = 1 \<and>
   available (loopStates 4 20 (seedEvents (setResources [''machining'' \<mapsto> 1]
       (ManufacturingSystem_init (samplesFrom [] 7))))) ''machining'' = 2 \<and>
   map etype (popped 4 20 (seedEvents (setResources [''machining'' \<mapsto> 1]
       (ManufacturingSystem_init (samplesFrom [] 7))))) =
     [''raw_material_arrival'', ''setup'', ''shift_change'', ''machining'']"
  by code_simp

section \<open>Shift changes\<close>













text \<open>
  The event that is popped in place of the third shift change need not be an arrival. With
  one unit of \<^verbatim>\<open>machining\<close> and arrivals at \<open>21.5\<close>, \<open>22.5\<close>, \<open>23.5\<close> and \<open>24.5\<close>,
  the unit that arrives at \<open>21.5\<close> is set up until \<open>22\<close>, the completion of its machining
  stage is due at \<open>24\<close> and is popped before the shift change of \<open>24\<close>.
\<close>

lemma shift_change_completion_at_bound:
  "map_option firedShiftChanges (runSimulation 24 (setResources [''machining'' \<mapsto> 1]
      (ManufacturingSystem_init (samplesFrom [43 / 2, 1, 1, 1] 100)))) = Some [8, 16]"
  by code_simp

section \<open>The order of the popped events\<close>

lemma ran_inserted: "x \<in> ran (inserted m k d) \<Longrightarrow> x \<in> ran m \<or> x = d"
  by (auto simp: inserted_def ran_def split: option.splits if_splits)

lemma lookup_in_ran: "lookup m k d \<in> ran m \<or> lookup m k d = d"
  by (auto simp: lookup_def ran_def split: option.splits)

lemma wellFormedI:
  assumes "is_heap (eventQueue s)"
    and "\<And>e. e \<in> set (eventQueue s) \<Longrightarrow> currentTime s \<le> time e \<and> actionTimed (action e)"
    and "\<And>ts x. ts \<in> ran (processingTimes s) \<Longrightarrow> x \<in> set ts \<Longrightarrow> 0 \<le> x"
    and "\<And>x. x \<in> ran (machineSetupTimes s) \<Longrightarrow> 0 \<le> x"
    and "0 \<le> shiftLength s" and "\<And>i. 0 \<le> generator s i"
  shows "wellFormed s"
  unfolding wellFormed_def using assms by blast

lemma wellFormedD:
  assumes "wellFormed s"
  shows "is_heap (eventQueue s)"
    and "\<And>e. e \<in> set (eventQueue s) \<Longrightarrow> currentTime s \<le> time e"
    and "\<And>e. e \<in> set (eventQueue s) \<Longrightarrow> actionTimed (action e)"
    and "\<And>ts x. ts \<in> ran (processingTimes s) \<Longrightarrow> x \<in> set ts \<Longrightarrow> 0 \<le> x"
    and "\<And>x. x \<in> ran (machineSetupTimes s) \<Longrightarrow> 0 \<le> x"
    and "0 \<le> shiftLength s" and "\<And>i. 0 \<le> generator s i"
  using assms unfolding wellFormed_def by blast+

lemma scheduleEvent_wellFormed:
  assumes "wellFormed s" "currentTime s \<le> t" "actionTimed a"
  shows "wellFormed (scheduleEvent t ty a s)"
proof (rule wellFormedI)
  note d = wellFormedD[OF assms(1)]
  show "is_heap (eventQueue (scheduleEvent t ty a s))"
    using d(1) by (simp add: scheduleEvent_def pq_push_heap)
  show "currentTime (scheduleEvent t ty a s) \<le> time e \<and> actionTimed (action e)"
    if "e \<in> set (eventQueue (scheduleEvent t ty a s))" for e
  proof -
    have "e = \<lparr>time = t, etype = ty, action = a\<rparr> \<or> e \<in> set (eventQueue s)"
      using that by (simp add: scheduleEvent_def)
    then show ?thesis using assms(2,3) d(2,3) by (auto simp: scheduleEvent_def)
  qed
  show "0 \<le> x" if "ts \<in> ran (processingTimes (scheduleEvent t ty a s))" "x \<in> set ts" for ts x
    using that d(4) by (simp add: scheduleEvent_def)
  show "0 \<le> x" if "x \<in> ran (machineSetupTimes (scheduleEvent t ty a s))" for x
    using that d(5) by (simp add: scheduleEvent_def)
  show "0 \<le> shiftLength (scheduleEvent t ty a s)" using d(6) by (simp add: scheduleEvent_def)
  show "0 \<le> generator (scheduleEvent t ty a s) i" for i using d(7) by (simp add: scheduleEvent_def)
qed

lemma wellFormed_frame:
  assumes "wellFormed s" "eventQueue s' = eventQueue s" "currentTime s' = currentTime s"
    "ran (processingTimes s') \<subseteq> insert [] (ran (processingTimes s))"
    "ran (machineSetupTimes s') \<subseteq> insert 0 (ran (machineSetupTimes s))"
    "shiftLength s' = shiftLength s" "\<And>i. 0 \<le> generator s' i"
  shows "wellFormed s'"
proof (rule wellFormedI)
  note d = wellFormedD[OF assms(1)]
  show "is_heap (eventQueue s')" using d(1) assms(2) by simp
  show "currentTime s' \<le> time e \<and> actionTimed (action e)" if "e \<in> set (eventQueue s')" for e
    using that d(2,3) assms(2,3) by simp
  show "0 \<le> x" if "ts \<in> ran (processingTimes s')" "x \<in> set ts" for ts x
  proof -
    have "ts = [] \<or> ts \<in> ran (processingTimes s)" using that(1) assms(4) by blast
    then show ?thesis using that(2) d(4) by auto
  qed
  show "0 \<le> x" if "x \<in> ran (machineSetupTimes s')" for x
  proof -
    have "x = 0 \<or> x \<in> ran (machineSetupTimes s)" using that assms(5) by blast
    then show ?thesis using d(5) by auto
  qed
  show "0 \<le> shiftLength s'" using d(6) assms(6) by simp
  show "0 \<le> generator s' i" for i by (rule assms(7))
qed

lemma ran_inserted_subset: "ran (inserted m k d) \<subseteq> insert d (ran m)"
  using ran_inserted by fastforce

lemma stage_time_nonneg:
  assumes "wellFormed s" "index_below_size i (stageTimes s p)"
  shows "0 \<le> stageTimes s p ! nat i"
proof -
  have "nat i < length (stageTimes s p)" using assms(2) by (simp add: index_below_size_def)
  then have m: "stageTimes s p ! nat i \<in> set (stageTimes s p)" by simp
  then have "stageTimes s p \<noteq> []" by auto
  moreover have "stageTimes s p \<in> ran (processingTimes s) \<or> stageTimes s p = []"
    unfolding stageTimes_def by (rule lookup_in_ran)
  ultimately have "stageTimes s p \<in> ran (processingTimes s)" by simp
  then show ?thesis using wellFormedD(4)[OF assms(1)] m by blast
qed

lemma setup_time_nonneg:
  assumes "wellFormed s"
  shows "0 \<le> lookup (machineSetupTimes s) k 0"
  using wellFormedD(5)[OF assms] lookup_in_ran[of "machineSetupTimes s" k 0] by auto

lemma handleNextStage_wellFormed:
  assumes "wellFormed s"
  shows "wellFormed (handleNextStage p s)"
proof (cases rule: handleNextStage_cases[of p s])
  case skip
  show ?thesis
    by (rule wellFormed_frame[OF assms])
      (simp_all add: handleNextStage_skip[OF skip] ran_inserted_subset wellFormedD(7)[OF assms]
        subset_insertI)
next
  case wait
  show ?thesis
    by (rule wellFormed_frame[OF assms])
      (simp_all add: handleNextStage_waiting[OF wait] ran_inserted_subset wellFormedD(7)[OF assms]
        subset_insertI)
next
  case acquire
  define su where "su = (if intermediateStage p = 0 then lookup (machineSetupTimes s) (ptype p) 0 else 0)"
  define s1 where "s1 = s\<lparr>processingTimes := inserted (processingTimes s) (ptype p) [],
       machineSetupTimes :=
         (if intermediateStage p = 0 then inserted (machineSetupTimes s) (ptype p) 0
          else machineSetupTimes s),
       availableResources := (availableResources s)
         (getStageName (intermediateStage p) \<mapsto> available s (getStageName (intermediateStage p)) - 1),
       resourceUsageTime := (resourceUsageTime s)
         (getStageName (intermediateStage p) \<mapsto>
            busyTime s (getStageName (intermediateStage p)) + su)\<rparr>"
  have su: "0 \<le> su" using setup_time_nonneg[OF assms] by (simp add: su_def)
  have w1: "wellFormed s1"
    by (rule wellFormed_frame[OF assms])
      (simp_all add: s1_def ran_inserted_subset wellFormedD(7)[OF assms] subset_insertI)
  have pt: "actionTimed (SetupAction p (stageTimes s p ! nat (intermediateStage p))
               (getStageName (intermediateStage p)))"
    using stage_time_nonneg[OF assms acquire(1)] by simp
  have "handleNextStage p s = scheduleEvent (currentTime s1 + su) ''setup''
      (SetupAction p (stageTimes s p ! nat (intermediateStage p))
               (getStageName (intermediateStage p))) s1"
    by (simp add: handleNextStage_acquire[OF acquire] s1_def su_def scheduleEvent_def newEvent_def)
  then show ?thesis
    using scheduleEvent_wellFormed[OF w1 _ pt, of "currentTime s1 + su" "''setup''"] su by simp
qed

lemma fire_wellFormed:
  assumes "wellFormed s" "actionTimed a"
  shows "wellFormed (fire a s)"
proof (cases a)
  case (ArrivalAction pt)
  define s0 where "s0 = s\<lparr>rawMaterialCount := rawMaterialCount s + 1,
          productQueue := productQueue s @ [\<lparr>ptype = pt, intermediateStage = 0\<rparr>],
          cout := cout s @ [RawMaterialArrived pt (currentTime s)],
          generator := (\<lambda>i. generator s (Suc i))\<rparr>"
  have w0: "wellFormed s0"
    by (rule wellFormed_frame[OF assms(1)])
      (simp_all add: s0_def wellFormedD(7)[OF assms(1)] subset_insertI)
  have g0: "0 \<le> generator s 0" by (rule wellFormedD(7)[OF assms(1)])
  have "fire a s = handleNextStage \<lparr>ptype = pt, intermediateStage = 0\<rparr>
      (scheduleEvent (currentTime s0 + generator s 0) ''raw_material_arrival'' (ArrivalAction pt) s0)"
    by (simp add: ArrivalAction handleRawMaterialArrival_def Let_def s0_def)
  then show ?thesis
    using handleNextStage_wellFormed scheduleEvent_wellFormed[OF w0] g0 by simp
next
  case (SetupAction p pt st)
  define s0 where "s0 = s\<lparr>resourceUsageTime := (resourceUsageTime s)
                 (st \<mapsto> lookup (resourceUsageTime s) st 0 + pt)\<rparr>"
  have w0: "wellFormed s0"
    by (rule wellFormed_frame[OF assms(1)])
      (simp_all add: s0_def wellFormedD(7)[OF assms(1)] subset_insertI)
  have "0 \<le> pt" using assms(2) SetupAction by simp
  moreover have "fire a s = scheduleEvent (currentTime s0 + pt) st (CompleteAction p) s0"
    by (simp add: SetupAction setupDone_def Let_def s0_def)
  ultimately show ?thesis using scheduleEvent_wellFormed[OF w0] by simp
next
  case (CompleteAction p)
  define st where "st = getStageName (intermediateStage p)"
  define s1 where "s1 = s\<lparr>cout := cout s @ [StageCompleted st (ptype p) (currentTime s)],
       availableResources := (availableResources s)(st \<mapsto> available s st + 1),
       processingTimes := inserted (processingTimes s) (ptype p) []\<rparr>"
  define p1 where "p1 = p\<lparr>intermediateStage := intermediateStage p + 1\<rparr>"
  have w1: "wellFormed s1"
    by (rule wellFormed_frame[OF assms(1)])
      (simp_all add: s1_def ran_inserted_subset wellFormedD(7)[OF assms(1)] subset_insertI)
  have unf: "fire a s =
      (if \<not> index_below_size (intermediateStage p1) (stageTimes s p1)
       then s1\<lparr>finishedProducts := finishedProducts s1 + 1,
              finishedProductsPerType := (finishedProductsPerType s1)
                (ptype p1 \<mapsto> lookup (finishedProductsPerType s1) (ptype p1) 0 + 1)\<rparr>
       else handleNextStage p1 s1)"
    by (simp add: CompleteAction completeStage_def Let_def s1_def p1_def st_def available_def
        stageTimes_def)
  show ?thesis
  proof (cases "index_below_size (intermediateStage p1) (stageTimes s p1)")
    case True
    then show ?thesis using handleNextStage_wellFormed[OF w1] by (simp add: unf)
  next
    case False
    have "wellFormed (s1\<lparr>finishedProducts := finishedProducts s1 + 1,
              finishedProductsPerType := (finishedProductsPerType s1)
                (ptype p1 \<mapsto> lookup (finishedProductsPerType s1) (ptype p1) 0 + 1)\<rparr>)"
      by (rule wellFormed_frame[OF w1]) (simp_all add: wellFormedD(7)[OF w1] subset_insertI)
    then show ?thesis using False by (simp add: unf)
  qed
next
  case (MaintenanceAction r)
  show ?thesis
    by (rule wellFormed_frame[OF assms(1)])
      (simp_all add: MaintenanceAction handleMaintenance_def Let_def wellFormedD(7)[OF assms(1)]
        subset_insertI)
next
  case ShiftChangeAction
  define s0 where "s0 = s\<lparr>cout := cout s @ [ShiftChangeAt (currentTime s)],
      availableResources := resources s\<rparr>"
  have w0: "wellFormed s0"
    by (rule wellFormed_frame[OF assms(1)])
      (simp_all add: s0_def wellFormedD(7)[OF assms(1)] subset_insertI)
  have "0 \<le> real_of_int (shiftLength s0)" using wellFormedD(6)[OF w0] by simp
  moreover have "fire a s = scheduleEvent (currentTime s0 + real_of_int (shiftLength s0))
      ''shift_change'' ShiftChangeAction s0"
    by (simp add: ShiftChangeAction handleShiftChange_def Let_def s0_def)
  ultimately show ?thesis using scheduleEvent_wellFormed[OF w0] by simp
qed

lemma loopBody_wellFormed:
  assumes "wellFormed s" "eventQueue s \<noteq> []"
  shows "wellFormed (loopBody s)"
    and "currentTime (loopBody s) = time (pq_top (eventQueue s))"
    and "currentTime s \<le> time (pq_top (eventQueue s))"
proof -
  define e where "e = pq_top (eventQueue s)"
  define s1 where "s1 = s\<lparr>eventQueue := pq_pop (eventQueue s), currentTime := time e\<rparr>"
  have unf: "loopBody s = fire (action e) s1"
    by (simp add: loopBody_def Let_def e_def s1_def)
  have hp: "is_heap (eventQueue s)" by (rule wellFormedD(1)[OF assms(1)])
  have ein: "e \<in> set (eventQueue s)" using assms(2) by (simp add: e_def pq_top_def)
  then have et: "currentTime s \<le> time e" "actionTimed (action e)"
    using wellFormedD(2,3)[OF assms(1)] by simp_all
  have w1: "wellFormed s1"
  proof (rule wellFormedI)
    note d = wellFormedD[OF assms(1)]
    show "is_heap (eventQueue s1)" using hp by (simp add: s1_def pq_pop_heap)
    show "currentTime s1 \<le> time x \<and> actionTimed (action x)" if "x \<in> set (eventQueue s1)" for x
    proof -
      have xin: "x \<in> set (eventQueue s)" using that set_pq_pop[OF hp] by (simp add: s1_def)
      then have "time e \<le> time x" unfolding e_def by (rule pq_top_least[OF hp])
      then show ?thesis using d(3)[OF xin] by (simp add: s1_def)
    qed
    show "0 \<le> x" if "ts \<in> ran (processingTimes s1)" "x \<in> set ts" for ts x
      using that d(4) by (simp add: s1_def)
    show "0 \<le> x" if "x \<in> ran (machineSetupTimes s1)" for x
      using that d(5) by (simp add: s1_def)
    show "0 \<le> shiftLength s1" using d(6) by (simp add: s1_def)
    show "0 \<le> generator s1 i" for i using d(7) by (simp add: s1_def)
  qed
  show "wellFormed (loopBody s)" unfolding unf by (rule fire_wellFormed[OF w1 et(2)])
  show "currentTime (loopBody s) = time (pq_top (eventQueue s))"
    unfolding unf fire_currentTime by (simp add: s1_def e_def)
  show "currentTime s \<le> time (pq_top (eventQueue s))" using et(1) by (simp add: e_def)
qed

lemma popped_sorted_from:
  "wellFormed s \<Longrightarrow>
   sorted (map time (popped n rt s)) \<and> (\<forall>e \<in> set (popped n rt s). currentTime s \<le> time e)"
proof (induction n arbitrary: s)
  case (Suc n)
  show ?case
  proof (cases "loopCondition rt s")
    case True
    then have ne: "eventQueue s \<noteq> []" by (simp add: loopCondition_def)
    note lb = loopBody_wellFormed[OF Suc.prems ne]
    from Suc.IH[OF lb(1)] lb(2,3) True show ?thesis by auto
  next
    case False
    then show ?thesis by simp
  qed
qed simp

text \<open>
  Claim C4, as amended. From a well-formed system -- a fresh one is well formed when the
  samples are non-negative, whatever resources are configured and whatever breakdowns have
  been scheduled -- the events popped by the loop have non-decreasing times. The queue compares
  times only, so among events of equal time the order is the one the heap happens to give.
\<close>

theorem popped_times_nondecreasing:
  assumes "wellFormed s"
  shows "sorted (map time (popped n rt s))"
  using popped_sorted_from[OF assms] by simp

lemma init_wellFormed:
  assumes "\<And>i. 0 \<le> g i"
  shows "wellFormed (ManufacturingSystem_init g)"
proof (rule wellFormedI)
  show "is_heap (eventQueue (ManufacturingSystem_init g))"
    by (simp add: ManufacturingSystem_init_def)
  show "currentTime (ManufacturingSystem_init g) \<le> time e \<and> actionTimed (action e)"
    if "e \<in> set (eventQueue (ManufacturingSystem_init g))" for e
    using that by (simp add: ManufacturingSystem_init_def)
  show "0 \<le> x" if "ts \<in> ran (processingTimes (ManufacturingSystem_init g))" "x \<in> set ts" for ts x
    using that by (auto simp: ManufacturingSystem_init_def ran_def split: if_splits)
  show "0 \<le> x" if "x \<in> ran (machineSetupTimes (ManufacturingSystem_init g))" for x
    using that by (auto simp: ManufacturingSystem_init_def ran_def split: if_splits)
  show "0 \<le> shiftLength (ManufacturingSystem_init g)" by (simp add: ManufacturingSystem_init_def)
  show "0 \<le> generator (ManufacturingSystem_init g) i" for i
    using assms by (simp add: ManufacturingSystem_init_def)
qed

lemma setResources_wellFormed:
  assumes "wellFormed s"
  shows "wellFormed (setResources r s)"
  by (rule wellFormed_frame[OF assms])
    (simp_all add: setResources_def wellFormedD(7)[OF assms] subset_insertI)

lemma handleBreakdown_wellFormed:
  assumes "wellFormed s"
  shows "wellFormed (handleBreakdown r s)"
proof -
  define s0 where "s0 = s\<lparr>cout := cout s @ [BreakdownOccurred r (currentTime s)]\<rparr>"
  have w0: "wellFormed s0"
    by (rule wellFormed_frame[OF assms]) (simp_all add: s0_def wellFormedD(7)[OF assms] subset_insertI)
  have "handleBreakdown r s = scheduleEvent (currentTime s0 + 5) ''maintenance'' (MaintenanceAction r) s0"
    by (simp add: handleBreakdown_def Let_def s0_def)
  then show ?thesis using scheduleEvent_wellFormed[OF w0, of "currentTime s0 + 5"] by simp
qed

lemma seedEvents_wellFormed:
  assumes "wellFormed s" "currentTime s \<le> 0"
  shows "wellFormed (seedEvents s)"
proof -
  define s0 where "s0 = s\<lparr>generator := (\<lambda>i. generator s (Suc i))\<rparr>"
  have w0: "wellFormed s0"
    by (rule wellFormed_frame[OF assms(1)])
      (simp_all add: s0_def wellFormedD(7)[OF assms(1)] subset_insertI)
  have g0: "currentTime s0 \<le> generator s 0"
    using wellFormedD(7)[OF assms(1), of 0] assms(2) by (simp add: s0_def)
  define s1 where "s1 = scheduleEvent (generator s 0) ''raw_material_arrival'' (ArrivalAction ''ProductA'') s0"
  have w1: "wellFormed s1"
    unfolding s1_def by (rule scheduleEvent_wellFormed[OF w0 g0]) simp
  have "currentTime s1 \<le> real_of_int (shiftLength s1)"
    using wellFormedD(6)[OF w1] assms(2) by (simp add: s1_def s0_def scheduleEvent_def)
  moreover have "seedEvents s = scheduleEvent (real_of_int (shiftLength s1)) ''shift_change'' ShiftChangeAction s1"
    by (simp add: seedEvents_def Let_def s1_def s0_def)
  ultimately show ?thesis using scheduleEvent_wellFormed[OF w1] by simp
qed

theorem popped_times_nondecreasing_witness:
  "sorted (map time (popped 9 20 (seedEvents
      (handleBreakdown ''d'' (handleBreakdown ''c'' (handleBreakdown ''b'' (handleBreakdown ''a''
         (ManufacturingSystem_init (samplesFrom [] 7)))))))))"
proof -
  let ?s = "handleBreakdown ''d'' (handleBreakdown ''c'' (handleBreakdown ''b''
     (handleBreakdown ''a'' (ManufacturingSystem_init (samplesFrom [] 7)))))"
  have "wellFormed (ManufacturingSystem_init (samplesFrom [] 7))"
    by (rule init_wellFormed) (simp add: samplesFrom_def)
  then have w: "wellFormed ?s" by (intro handleBreakdown_wellFormed)
  have "currentTime ?s \<le> 0"
    by (simp add: handleBreakdown_def Let_def scheduleEvent_def ManufacturingSystem_init_def)
  then have "wellFormed (seedEvents ?s)" by (rule seedEvents_wellFormed[OF w])
  then show ?thesis by (rule popped_times_nondecreasing)
qed

text \<open>
  Claim C4 as stated fails for equal times. Four units of every stage are configured and a
  unit arrives every time unit. The completion of \<^verbatim>\<open>machining\<close> due at \<open>5.5\<close> is in the
  queue after thirteen iterations, when no other event is due at \<open>5.5\<close>; the fourteenth
  iteration (the arrival of time \<open>5\<close>) schedules a \<^verbatim>\<open>setup\<close> event for \<open>5.5\<close> as well.
  The setup event, scheduled later, is popped first.
\<close>

theorem equal_times_pop_order_counterexample:
  "queuedFor (11 / 2) (loopStates 13 20 (seedEvents (setResources
      [''machining'' \<mapsto> 4, ''assembly'' \<mapsto> 4, ''quality_control'' \<mapsto> 4, ''packaging'' \<mapsto> 4]
      (ManufacturingSystem_init (samplesFrom [] 1))))) = [''machining''] \<and>
   queuedFor (11 / 2) (loopStates 14 20 (seedEvents (setResources
      [''machining'' \<mapsto> 4, ''assembly'' \<mapsto> 4, ''quality_control'' \<mapsto> 4, ''packaging'' \<mapsto> 4]
      (ManufacturingSystem_init (samplesFrom [] 1))))) = [''machining'', ''setup''] \<and>
   map time (drop 15 (popped 17 20 (seedEvents (setResources
      [''machining'' \<mapsto> 4, ''assembly'' \<mapsto> 4, ''quality_control'' \<mapsto> 4, ''packaging'' \<mapsto> 4]
      (ManufacturingSystem_init (samplesFrom [] 1)))))) = [11 / 2, 11 / 2] \<and>
   map etype (drop 15 (popped 17 20 (seedEvents (setResources
      [''machining'' \<mapsto> 4, ''assembly'' \<mapsto> 4, ''quality_control'' \<mapsto> 4, ''packaging'' \<mapsto> 4]
      (ManufacturingSystem_init (samplesFrom [] 1)))))) = [''setup'', ''machining'']"
  by code_simp

text \<open>
  The same on the queue alone: four breakdowns reported in the order \<open>a\<close>, \<open>b\<close>,
  \<open>c\<close>, \<open>d\<close> schedule four maintenance events for time \<open>5\<close>, and the run pops them
  in the order \<open>a\<close>, \<open>c\<close>, \<open>b\<close>, \<open>d\<close>.
\<close>

lemma equal_times_breakdowns_pop_order:
  "map time (eventQueue (handleBreakdown ''d'' (handleBreakdown ''c'' (handleBreakdown ''b''
      (handleBreakdown ''a'' (ManufacturingSystem_init (samplesFrom [] 7))))))) = [5, 5, 5, 5] \<and>
   map action (popped 4 20 (seedEvents
      (handleBreakdown ''d'' (handleBreakdown ''c'' (handleBreakdown ''b'' (handleBreakdown ''a''
         (ManufacturingSystem_init (samplesFrom [] 7)))))))) =
     [MaintenanceAction ''a'', MaintenanceAction ''c'', MaintenanceAction ''b'',
      MaintenanceAction ''d'']"
  by code_simp

section \<open>The loop of the driver\<close>






section \<open>What a run depends on\<close>

lemma core_idem [simp]: "core (core s) = core s"
  by (simp add: core_def)

lemma core_scheduleEvent: "core (scheduleEvent t ty a s) = scheduleEvent t ty a (core s)"
  by (simp add: core_def scheduleEvent_def)

lemma core_handleNextStage: "core (handleNextStage p s) = handleNextStage p (core s)"
proof (cases rule: handleNextStage_cases[of p s])
  case skip
  then have "\<not> index_below_size (intermediateStage p) (stageTimes (core s) p)"
    by (simp add: core_def stageTimes_def)
  then show ?thesis
    by (simp add: handleNextStage_skip[OF skip] handleNextStage_skip) (simp add: core_def)
next
  case wait
  then have "index_below_size (intermediateStage p) (stageTimes (core s) p)"
    "available (core s) (getStageName (intermediateStage p)) \<le> 0"
    by (simp_all add: core_def stageTimes_def available_def)
  then show ?thesis
    by (simp add: handleNextStage_waiting[OF wait] handleNextStage_waiting)
      (simp add: core_def stageTimes_def waitingTime_def)
next
  case acquire
  then have "index_below_size (intermediateStage p) (stageTimes (core s) p)"
    "0 < available (core s) (getStageName (intermediateStage p))"
    by (simp_all add: core_def stageTimes_def available_def)
  then show ?thesis
    by (simp add: handleNextStage_acquire[OF acquire] handleNextStage_acquire)
      (simp add: core_def stageTimes_def available_def busyTime_def)
qed

lemma core_fire: "core (fire a s) = core (fire a (core s))"
proof (cases a)
  case (ArrivalAction pt)
  show ?thesis
    unfolding ArrivalAction fire.simps handleRawMaterialArrival_def Let_def core_handleNextStage
      core_scheduleEvent
    by (simp add: core_def)
next
  case (SetupAction p pt st)
  show ?thesis
    unfolding SetupAction fire.simps setupDone_def Let_def core_scheduleEvent
    by (simp add: core_def)
next
  case (CompleteAction p)
  show ?thesis
    unfolding CompleteAction fire.simps completeStage_def Let_def
    by (simp add: core_handleNextStage) (simp add: core_def)
next
  case (MaintenanceAction r)
  show ?thesis
    unfolding MaintenanceAction fire.simps handleMaintenance_def Let_def
    by (simp add: core_def)
next
  case ShiftChangeAction
  show ?thesis
    unfolding ShiftChangeAction fire.simps handleShiftChange_def Let_def core_scheduleEvent
    by (simp add: core_def)
qed

lemma core_loopBody: "core (loopBody s) = core (loopBody (core s))"
proof -
  have q: "eventQueue (core s) = eventQueue s" by (simp add: core_def)
  have "core (s\<lparr>eventQueue := pq_pop (eventQueue s),
                currentTime := time (pq_top (eventQueue s))\<rparr>) =
        core ((core s)\<lparr>eventQueue := pq_pop (eventQueue s),
                currentTime := time (pq_top (eventQueue s))\<rparr>)"
    by (simp add: core_def)
  then show ?thesis
    unfolding loopBody_def Let_def q
    by (metis core_fire)
qed

lemma loopCondition_core: "loopCondition rt (core s) = loopCondition rt s"
  by (simp add: loopCondition_def core_def)

lemma core_loopStates: "core (loopStates n rt s) = core (loopStates n rt (core s))"
proof (induction n arbitrary: s)
  case (Suc n)
  show ?case
  proof (cases "loopCondition rt s")
    case True
    have "core (loopStates n rt (loopBody s)) = core (loopStates n rt (core (loopBody s)))"
      by (rule Suc.IH)
    also have "\<dots> = core (loopStates n rt (core (loopBody (core s))))"
      by (simp only: core_loopBody[of s])
    also have "\<dots> = core (loopStates n rt (loopBody (core s)))"
      by (rule Suc.IH[symmetric])
    finally show ?thesis using True by (simp add: loopCondition_core)
  next
    case False
    then show ?thesis by (simp add: loopCondition_core)
  qed
qed simp

lemma eventLoop_core_transfer:
  assumes "eventLoop rt s1 = Some s1'" "core s1 = core s2"
  shows "\<exists>s2'. eventLoop rt s2 = Some s2' \<and> core s2' = core s1'"
proof -
  obtain n where n: "s1' = loopStates n rt s1" "\<not> loopCondition rt s1'"
    using eventLoop_Some[OF assms(1)] by blast
  have c: "core (loopStates n rt s2) = core (loopStates n rt s1)"
    using core_loopStates[of n rt s1] core_loopStates[of n rt s2] assms(2) by simp
  have "loopCondition rt (loopStates n rt s2) = loopCondition rt (loopStates n rt s1)"
    using loopCondition_core[of rt "loopStates n rt s2"] loopCondition_core[of rt "loopStates n rt s1"]
      c by simp
  then have "\<not> loopCondition rt (loopStates n rt s2)" using n by simp
  then have "eventLoop rt s2 = Some (loopStates n rt s2)" by (rule eventLoop_exit)
  then show ?thesis using c n(1) by simp
qed

lemma eventLoop_core:
  assumes "core s1 = core s2"
  shows "map_option core (eventLoop rt s1) = map_option core (eventLoop rt s2)"
proof (cases "eventLoop rt s1")
  case None
  have "eventLoop rt s2 = None"
  proof (rule ccontr)
    assume "eventLoop rt s2 \<noteq> None"
    then obtain s2' where "eventLoop rt s2 = Some s2'" by auto
    from eventLoop_core_transfer[OF this assms[symmetric]] None show False by simp
  qed
  then show ?thesis using None by simp
next
  case (Some s1')
  from eventLoop_core_transfer[OF this assms] show ?thesis using Some by auto
qed

lemma core_seedEvents: "core s1 = core s2 \<Longrightarrow> core (seedEvents s1) = core (seedEvents s2)"
proof -
  assume a: "core s1 = core s2"
  have "\<And>s. core (seedEvents s) = seedEvents (core s)"
    by (simp add: seedEvents_def Let_def core_def scheduleEvent_def)
  then show ?thesis using a by simp
qed

lemma logData_core: "logData (core s) = logData s"
  by (simp add: logData_def core_def)

lemma sameSeedAndConfiguration_core:
  "sameSeedAndConfiguration s1 s2 \<Longrightarrow> core s1 = core s2"
  by (simp add: sameSeedAndConfiguration_def core_def ManufacturingSystem.equality)

subsection \<open>A unit that fails to acquire its stage\<close>


lemma available_countsAsRead [simp]: "available (countsAsRead s) r = available s r"
  by (simp add: countsAsRead_def available_def lookup_def)

lemma countsAsRead_idem [simp]: "countsAsRead (countsAsRead s) = countsAsRead s"
  by (simp add: countsAsRead_def available_def lookup_def)

lemma stageTimes_countsAsRead [simp]: "stageTimes (countsAsRead s) p = stageTimes s p"
  by (simp add: countsAsRead_def stageTimes_def)












subsection \<open>Two runs\<close>

text \<open>
  Claim C10. Two systems with the same sample sequence (the same seed), the same
  configuration (capacities and available counts, processing and setup times, shift length)
  and the same fresh accumulators, queue and clock, run with the same bound, write the same
  statistics: both runs return, with equal busy times, waiting times and finished counts,
  or neither returns. The systems may differ in everything else.
\<close>

theorem same_seed_same_statistics:
  assumes "sameSeedAndConfiguration s1 s2"
  shows "map_option logData (runSimulation rt s1) = map_option logData (runSimulation rt s2)"
proof -
  have "core (seedEvents s1) = core (seedEvents s2)"
    using assms by (intro core_seedEvents sameSeedAndConfiguration_core)
  then have "map_option core (runSimulation rt s1) = map_option core (runSimulation rt s2)"
    unfolding runSimulation_def by (rule eventLoop_core)
  then have "map_option logData (map_option core (runSimulation rt s1)) =
             map_option logData (map_option core (runSimulation rt s2))"
    by simp
  then show ?thesis
    by (simp add: option.map_comp comp_def logData_core)
qed

theorem same_seed_same_statistics_witness:
  "map_option logData (runSimulation 24
      (setResources [''machines'' \<mapsto> 10, ''operators'' \<mapsto> 5]
         (ManufacturingSystem_init (samplesFrom [] 5)))) =
   map_option logData (runSimulation 24
      ((setResources [''machines'' \<mapsto> 10, ''operators'' \<mapsto> 5]
         (ManufacturingSystem_init (samplesFrom [] 5)))
       \<lparr>rawMaterialCount := 3, productQueue := [\<lparr>ptype = ''ProductB'', intermediateStage = 2\<rparr>],
        cout := [ShiftChangeAt 0]\<rparr>)) \<and>
   map_option finishedProducts (runSimulation 24
      (setResources [''machines'' \<mapsto> 10, ''operators'' \<mapsto> 5]
         (ManufacturingSystem_init (samplesFrom [] 5)))) = Some 0"
proof -
  let ?s1 = "setResources [''machines'' \<mapsto> 10, ''operators'' \<mapsto> 5]
         (ManufacturingSystem_init (samplesFrom [] 5))"
  let ?s2 = "?s1\<lparr>rawMaterialCount := 3,
        productQueue := [\<lparr>ptype = ''ProductB'', intermediateStage = 2\<rparr>],
        cout := [ShiftChangeAt 0]\<rparr>"
  have h: "sameSeedAndConfiguration ?s1 ?s2"
    by (simp add: sameSeedAndConfiguration_def)
  have v: "map_option finishedProducts (runSimulation 24 ?s1) = Some 0"
    by code_simp
  show ?thesis by (rule conjI[OF same_seed_same_statistics[OF h] v])
qed

end
